theory Spec2Isabelle
  imports Main "HOL-Library.Multiset"
begin

section \<open>The content store: the verified write\<close>

text \<open>
  \<^verbatim>\<open>bufferDownloadedFile\<close> (package lfs) streams a reader into a temporary file,
  hashes the bytes on the way, compares the digest with the file name of the
  destination and renames the temporary file into place.

  The file system is a map from paths to files. The calls into the operating
  system and into the Go library can fail; which of them fail, the random numbers
  drawn for the temporary name and the digest function are the environment of one
  call, the record \<open>store_env\<close>.
\<close>

type_synonym path = string
type_synonym bytes = "char list"

record fsfile =
  content :: bytes
  mode :: nat

type_synonym fs = "path \<rightharpoonup> fsfile"

datatype oserr = ErrNotExist | ErrExist | ErrOther string

record store_env =
  LocalObjectTempDir :: path
  random :: "nat list"
  openErr :: "oserr option"
  copyErr :: "(nat \<times> oserr) option"
  closeErr :: "oserr option"
  statErr :: "oserr option"
  chmodErr :: "oserr option"
  renameErr :: "oserr option"
  hash :: "bytes \<Rightarrow> string"

text \<open>The errors \<^verbatim>\<open>bufferDownloadedFile\<close> builds with \<^verbatim>\<open>fmt.Errorf\<close>, one constructor
  for each message, in the order of the source.\<close>

datatype store_error =
    CannotCreateTemp oserr
  | CannotWriteTemp path oserr
  | CannotCloseTemp path oserr
  | ExpectedOid string string int
  | StatFailed oserr
  | CannotSetFilemode path oserr
  | CannotReplace path path oserr

subsection \<open>The library calls\<close>

text \<open>\<^verbatim>\<open>filepath.Base\<close>: the last element of a path, after the trailing slashes are
  dropped; \<^verbatim>\<open>"."\<close> for the empty path and \<^verbatim>\<open>"/"\<close> for a path of slashes only.\<close>

definition Base :: "path \<Rightarrow> string" where
  "Base p =
     (if p = [] then ''.''
      else let q = dropWhile (\<lambda>c. c = CHR ''/'') (rev p);
               b = rev (takeWhile (\<lambda>c. c \<noteq> CHR ''/'') q)
           in if b = [] then ''/'' else b)"

text \<open>\<^verbatim>\<open>ioutil.TempFile(dir, prefix)\<close> draws a nine-digit suffix (\<^verbatim>\<open>nextRandom\<close>),
  opens \<^verbatim>\<open>dir/prefix+suffix\<close> with \<^verbatim>\<open>O_CREATE|O_EXCL\<close> and mode 0600, and draws again
  while the name exists. \<open>random env\<close> lists the numbers it draws.\<close>

definition digit :: "nat \<Rightarrow> char" where
  "digit d = char_of (48 + d mod 10)"

definition nextRandom :: "nat \<Rightarrow> string" where
  "nextRandom r = map (\<lambda>i. digit (r div 10 ^ i)) [8, 7, 6, 5, 4, 3, 2, 1, 0]"

definition Join :: "path \<Rightarrow> string \<Rightarrow> path" where
  "Join dir name = dir @ ''/'' @ name"

fun tryNames :: "fs \<Rightarrow> path \<Rightarrow> string \<Rightarrow> nat list \<Rightarrow> oserr + path" where
  "tryNames fs dir prefix [] = Inl ErrExist"
| "tryNames fs dir prefix (r # rs) =
     (let name = Join dir (prefix @ nextRandom r)
      in if fs name \<noteq> None then tryNames fs dir prefix rs else Inr name)"

definition TempFile :: "store_env \<Rightarrow> fs \<Rightarrow> path \<Rightarrow> string \<Rightarrow> oserr + path" where
  "TempFile env fs dir prefix =
     (case openErr env of
        Some e \<Rightarrow> Inl e
      | None \<Rightarrow> tryNames fs dir prefix (random env))"

text \<open>\<^verbatim>\<open>tools.CopyWithCallback(writer, reader, size, cb)\<close> is not among the sources
  at hand. It is modelled on its call sites and on the doc comment of
  \<^verbatim>\<open>bufferDownloadedFile\<close> (\<^emph>\<open>size: expected byte size of the content, used for the
  progress bar in the optional CopyCallback\<close>): it is \<^verbatim>\<open>io.Copy\<close>, the size reaches
  the progress callback only. It returns the bytes that reached the writer, their
  number and the error; \<open>copyErr env = Some (n, e)\<close> is a copy that fails with \<open>e\<close>
  after \<open>n\<close> bytes.\<close>

definition CopyWithCallback :: "store_env \<Rightarrow> bytes \<Rightarrow> int \<Rightarrow> bytes \<times> int \<times> oserr option" where
  "CopyWithCallback env reader sz =
     (case copyErr env of
        None \<Rightarrow> (reader, int (length reader), None)
      | Some (n, e) \<Rightarrow> (take n reader, int (length (take n reader)), Some e))"

text \<open>\<^verbatim>\<open>os.Stat\<close> gives the mode of an existing file, \<^verbatim>\<open>os.IsNotExist\<close> recognises
  the error for a missing one.\<close>

definition Stat :: "store_env \<Rightarrow> fs \<Rightarrow> path \<Rightarrow> oserr + nat" where
  "Stat env fs p =
     (case fs p of
        None \<Rightarrow> Inl ErrNotExist
      | Some f \<Rightarrow> (case statErr env of Some e \<Rightarrow> Inl e | None \<Rightarrow> Inr (mode f)))"

definition IsNotExist :: "oserr option \<Rightarrow> bool" where
  "IsNotExist err = (err = Some ErrNotExist)"

definition Remove :: "fs \<Rightarrow> path \<Rightarrow> fs" where
  "Remove fs p = fs(p := None)"

definition Chmod :: "fs \<Rightarrow> path \<Rightarrow> nat \<Rightarrow> fs" where
  "Chmod fs p m = (case fs p of None \<Rightarrow> fs | Some f \<Rightarrow> fs(p \<mapsto> f\<lparr>mode := m\<rparr>))"

text \<open>\<^verbatim>\<open>os.Rename\<close> is atomic: the new path holds the file and the old path is gone.\<close>

definition Rename :: "fs \<Rightarrow> path \<Rightarrow> path \<Rightarrow> fs" where
  "Rename fs old new = (case fs old of None \<Rightarrow> fs | Some f \<Rightarrow> (fs(old := None))(new \<mapsto> f))"

subsection \<open>bufferDownloadedFile\<close>

text \<open>
  The function declares \<^verbatim>\<open>f, err := ioutil.TempFile(...)\<close> and then defers
  \<^verbatim>\<open>func() { if err != nil { os.Remove(f.Name()) } }\<close>. The closure reads the
  variable \<^verbatim>\<open>err\<close> of the function body when the function returns. That variable
  is assigned again by \<^verbatim>\<open>written, err := tools.CopyWithCallback(...)\<close> and by
  \<^verbatim>\<open>info, err := os.Stat(filename)\<close>, both in the scope of the body. The
  \<^verbatim>\<open>if err := ...; err != nil\<close> statements of \<^verbatim>\<open>f.Close\<close>, \<^verbatim>\<open>os.Chmod\<close> and
  \<^verbatim>\<open>os.Rename\<close> declare an \<^verbatim>\<open>err\<close> of their own, and the result of the function
  has no name, so a \<^verbatim>\<open>return fmt.Errorf(...)\<close> does not assign the variable either.

  \<open>deferred err name tr\<close> is the deferred closure, run with the value \<open>err\<close> of the
  body's variable. The model returns the error of the call and the trace of the
  file system: the state before the call and the state after each operation that
  changes it, the last one being the state the function returns in.
\<close>

definition deferred :: "oserr option \<Rightarrow> path \<Rightarrow> fs list \<Rightarrow> fs list" where
  "deferred err name tr = (if err \<noteq> None then tr @ [Remove (last tr) name] else tr)"

definition bufferDownloadedFile ::
  "store_env \<Rightarrow> fs \<Rightarrow> path \<Rightarrow> bytes \<Rightarrow> int \<Rightarrow> store_error option \<times> fs list" where
  "bufferDownloadedFile env fs filename reader sz =
     (let oid = Base filename in
      case TempFile env fs (LocalObjectTempDir env) (oid @ ''-'') of
        Inl e \<Rightarrow> (Some (CannotCreateTemp e), [fs])
      | Inr name \<Rightarrow>
          let fs0 = fs(name \<mapsto> \<lparr>content = [], mode = 384\<rparr>) in
          (case CopyWithCallback env reader sz of
             (wrote, written, err) \<Rightarrow>
               let fs1 = fs0(name \<mapsto> \<lparr>content = wrote, mode = 384\<rparr>) in
               (case err of
                  Some e \<Rightarrow> (Some (CannotWriteTemp name e), deferred err name [fs, fs0, fs1])
                | None \<Rightarrow>
                   (case closeErr env of
                      Some e \<Rightarrow> (Some (CannotCloseTemp name e), deferred err name [fs, fs0, fs1])
                    | None \<Rightarrow>
                       let actual = hash env wrote in
                       if actual \<noteq> oid
                       then (Some (ExpectedOid oid actual written), deferred err name [fs, fs0, fs1])
                       else
                        (case Stat env fs1 filename of
                           Inl e \<Rightarrow>
                             let err = Some e in
                             if IsNotExist err then
                               (case renameErr env of
                                  Some e' \<Rightarrow> (Some (CannotReplace filename name e'),
                                              deferred err name [fs, fs0, fs1])
                                | None \<Rightarrow> (None, deferred err name
                                             [fs, fs0, fs1, Rename fs1 name filename]))
                             else (Some (StatFailed e), deferred err name [fs, fs0, fs1])
                         | Inr m \<Rightarrow>
                             let err = None in
                             (case chmodErr env of
                                Some e' \<Rightarrow> (Some (CannotSetFilemode name e'),
                                            deferred err name [fs, fs0, fs1])
                              | None \<Rightarrow>
                                 let fs2 = Chmod fs1 name m in
                                 (case renameErr env of
                                    Some e' \<Rightarrow> (Some (CannotReplace filename name e'),
                                                deferred err name [fs, fs0, fs1, fs2])
                                  | None \<Rightarrow> (None, deferred err name
                                               [fs, fs0, fs1, fs2, Rename fs2 name filename]))))))))"

subsection \<open>Facts about the temporary name\<close>

lemma digit_not_slash: "digit d \<noteq> CHR ''/''"
proof
  assume "digit d = CHR ''/''"
  then have "of_char (char_of (48 + d mod 10 :: nat)) = (of_char (CHR ''/'') :: nat)"
    by (simp add: digit_def)
  then show False by (simp add: of_char_of)
qed

lemma map_digit_no_slash: "CHR ''/'' \<notin> set (map (\<lambda>i. digit (f i)) xs)"
proof (induction xs)
  case Nil
  show ?case by simp
next
  case (Cons x xs)
  have "CHR ''/'' \<noteq> digit (f x)" using digit_not_slash [of "f x"] by (rule not_sym)
  with Cons show ?case by simp
qed

lemma nextRandom_no_slash: "CHR ''/'' \<notin> set (nextRandom r)"
  unfolding nextRandom_def by (rule map_digit_no_slash)

lemma takeWhile_upto:
  "\<forall>x \<in> set xs. P x \<Longrightarrow> \<not> P y \<Longrightarrow> takeWhile P (xs @ y # ys) = xs"
  by (induction xs) simp_all

lemma Base_Join:
  assumes "CHR ''/'' \<notin> set s" "s \<noteq> []"
  shows "Base (d @ ''/'' @ s) = s"
proof -
  from assms obtain c cs where rs: "rev s = c # cs"
    by (cases "rev s") simp_all
  then have "c \<in> set (rev s)" by simp
  then have c: "c \<noteq> CHR ''/''" using assms by auto
  have "\<forall>x \<in> set (rev s). x \<noteq> CHR ''/''" using assms by auto
  then have tw: "takeWhile (\<lambda>c. c \<noteq> CHR ''/'') (rev s @ CHR ''/'' # rev d) = rev s"
    by (rule takeWhile_upto) simp
  have dw: "dropWhile (\<lambda>c. c = CHR ''/'') (rev s @ CHR ''/'' # rev d) = rev s @ CHR ''/'' # rev d"
    using rs c by simp
  have "Base (d @ ''/'' @ s) = rev (takeWhile (\<lambda>c. c \<noteq> CHR ''/'') (rev s @ CHR ''/'' # rev d))"
    using assms(2) by (simp add: Base_def Let_def dw tw)
  then show ?thesis by (simp add: tw)
qed

lemma Base_slash: "CHR ''/'' \<in> set (Base p) \<Longrightarrow> Base p = ''/''"
  by (auto simp: Base_def Let_def split: if_splits dest: set_takeWhileD)

lemma temp_name_neq: "Join dir (Base filename @ ''-'' @ nextRandom r) \<noteq> filename"
proof
  assume eq: "Join dir (Base filename @ ''-'' @ nextRandom r) = filename"
  let ?oid = "Base filename"
  show False
  proof (cases "CHR ''/'' \<in> set ?oid")
    case True
    then have o: "?oid = ''/''" by (rule Base_slash)
    have "Base ((dir @ ''/'') @ ''/'' @ (''-'' @ nextRandom r)) = ''-'' @ nextRandom r"
      by (rule Base_Join) (use nextRandom_no_slash in auto)
    with eq o show False by (simp add: Join_def)
  next
    case False
    have "Base (dir @ ''/'' @ (?oid @ ''-'' @ nextRandom r)) = ?oid @ ''-'' @ nextRandom r"
      by (rule Base_Join) (use False nextRandom_no_slash in auto)
    with eq show False by (simp add: Join_def)
  qed
qed

lemma tryNames_Inr:
  "tryNames fs dir prefix rs = Inr name \<Longrightarrow>
     fs name = None \<and> (\<exists>r. name = Join dir (prefix @ nextRandom r))"
  by (induction rs) (auto simp: Let_def split: if_splits)

lemma TempFile_Inr:
  "TempFile env fs dir prefix = Inr name \<Longrightarrow>
     fs name = None \<and> (\<exists>r. name = Join dir (prefix @ nextRandom r))"
  by (auto simp: TempFile_def split: option.splits dest: tryNames_Inr)

lemma TempFile_fresh:
  "TempFile env fs dir (Base filename @ ''-'') = Inr name \<Longrightarrow> name \<noteq> filename \<and> fs name = None"
  using temp_name_neq by (auto dest!: TempFile_Inr)

subsection \<open>The claims about the verified write\<close>

text \<open>
  Claim C5. Whenever \<^verbatim>\<open>bufferDownloadedFile\<close> returns an error, the canonical path holds
  in every state of the call, the final one included, what it held before the call.
  In every state of any call the canonical path holds either what it held before, or,
  in a call that succeeds, the complete content that was read, whose digest is the oid:
  only the final rename changes it, and no partly written content is ever visible there.
\<close>

theorem canonical_path_untouched:
  assumes "bufferDownloadedFile env fs filename reader sz = (res, tr)"
  shows "tr \<noteq> [] \<and> hd tr = fs \<and>
    (res \<noteq> None \<longrightarrow> (\<forall>s \<in> set tr. s filename = fs filename)) \<and>
    (\<forall>s \<in> set tr. s filename = fs filename \<or>
        (res = None \<and> hash env reader = Base filename \<and>
         (\<exists>m. s filename = Some \<lparr>content = reader, mode = m\<rparr>)))"
proof (cases "TempFile env fs (LocalObjectTempDir env) (Base filename @ ''-'')")
  case (Inl e)
  with assms show ?thesis by (auto simp: bufferDownloadedFile_def)
next
  case (Inr name)
  then have "name \<noteq> filename" "fs name = None" using TempFile_fresh by blast+
  with assms Inr show ?thesis
    by (auto simp: bufferDownloadedFile_def Let_def CopyWithCallback_def deferred_def Remove_def
        Rename_def Chmod_def Stat_def IsNotExist_def
        split: option.splits sum.splits if_splits prod.splits)
qed

text \<open>
  A concrete call: the objects directory holds an older file at the canonical path, the
  temporary directory is empty, every system call succeeds. \<open>stub_sha\<close> stands for the
  digest of the hashing reader: it maps the content \<^verbatim>\<open>abc\<close> to the oid \<^verbatim>\<open>ba78\<close> and
  every other content to \<^verbatim>\<open>e3b0\<close>.
\<close>

definition stub_sha :: "bytes \<Rightarrow> string" where
  "stub_sha b = (if b = ''abc'' then ''ba78'' else ''e3b0'')"

definition demo_env :: store_env where
  "demo_env = \<lparr>LocalObjectTempDir = ''/lfs/tmp'', random = [7], openErr = None,
     copyErr = None, closeErr = None, statErr = None, chmodErr = None, renameErr = None,
     hash = stub_sha\<rparr>"

definition demo_path :: path where
  "demo_path = ''/lfs/objects/ba78''"

definition demo_fs :: fs where
  "demo_fs = [demo_path \<mapsto> \<lparr>content = ''old'', mode = 420\<rparr>]"

lemma Base_demo_path: "Base demo_path = ''ba78''"
  by (simp add: Base_def demo_path_def)

lemma digit_0_7: "digit 0 = CHR ''0''" "digit 7 = CHR ''7''"
  by (simp_all add: digit_def char_of_def bit_0)

lemma nextRandom_7: "nextRandom 7 = ''000000007''"
  by (simp add: nextRandom_def digit_0_7)

lemma TempFile_demo: "TempFile demo_env demo_fs ''/lfs/tmp'' ''ba78-'' = Inr ''/lfs/tmp/ba78-000000007''"
  by (simp add: TempFile_def demo_env_def demo_fs_def demo_path_def Join_def nextRandom_7)

lemma demo_fs_simps:
  "demo_fs demo_path = Some \<lparr>content = ''old'', mode = 420\<rparr>"
  "demo_path \<noteq> ''/lfs/tmp/ba78-000000007''"
  by (simp_all add: demo_fs_def demo_path_def)

lemma demo_env_simps:
  "LocalObjectTempDir demo_env = ''/lfs/tmp''" "copyErr demo_env = None"
  "closeErr demo_env = None" "statErr demo_env = None" "chmodErr demo_env = None"
  "renameErr demo_env = None" "hash demo_env = stub_sha"
  by (simp_all add: demo_env_def)

lemma TempFile_demo_call:
  "TempFile demo_env demo_fs (LocalObjectTempDir demo_env) (Base demo_path @ ''-'') =
     Inr ''/lfs/tmp/ba78-000000007''"
  using TempFile_demo by (simp add: Base_demo_path demo_env_simps)

lemma demo_mismatch_fails:
  "fst (bufferDownloadedFile demo_env demo_fs demo_path ''xyz'' 3) =
     Some (ExpectedOid ''ba78'' ''e3b0'' 3)"
  by (simp add: bufferDownloadedFile_def Base_demo_path TempFile_demo demo_env_simps
      CopyWithCallback_def deferred_def Let_def stub_sha_def)

theorem canonical_path_untouched_witness:
  "fst (bufferDownloadedFile demo_env demo_fs demo_path ''xyz'' 3) \<noteq> None \<and>
   last (snd (bufferDownloadedFile demo_env demo_fs demo_path ''xyz'' 3)) demo_path =
     Some \<lparr>content = ''old'', mode = 420\<rparr>"
proof -
  obtain res tr where r: "bufferDownloadedFile demo_env demo_fs demo_path ''xyz'' 3 = (res, tr)"
    by (cases "bufferDownloadedFile demo_env demo_fs demo_path ''xyz'' 3")
  have e: "res \<noteq> None"
    using demo_mismatch_fails r by simp
  from canonical_path_untouched [OF r] e
  have "tr \<noteq> []" "\<forall>s \<in> set tr. s demo_path = demo_fs demo_path"
    by blast+
  then have "last tr demo_path = demo_fs demo_path" using last_in_set by blast
  with r e show ?thesis by (simp add: demo_fs_simps)
qed

text \<open>
  Claim C3. When the digest of the streamed content is not the oid, the call returns
  the error \<^verbatim>\<open>Expected OID ..., got ... after ... bytes written\<close>, and the temporary file
  is still there, with the whole content, in the state the function returns in: the
  deferred closure sees the body's \<^verbatim>\<open>err\<close>, which is \<^verbatim>\<open>nil\<close> after a copy that
  succeeded, and removes nothing.
\<close>

theorem hash_mismatch_keeps_temp_file:
  assumes "TempFile env fs (LocalObjectTempDir env) (Base filename @ ''-'') = Inr name"
      and "copyErr env = None" and "closeErr env = None"
      and "hash env reader \<noteq> Base filename"
  shows "fst (bufferDownloadedFile env fs filename reader sz) =
           Some (ExpectedOid (Base filename) (hash env reader) (int (length reader))) \<and>
         last (snd (bufferDownloadedFile env fs filename reader sz)) name =
           Some \<lparr>content = reader, mode = 384\<rparr>"
  using assms by (simp add: bufferDownloadedFile_def CopyWithCallback_def deferred_def Let_def)

theorem hash_mismatch_keeps_temp_file_witness:
  "fst (bufferDownloadedFile demo_env demo_fs demo_path ''xyz'' 3) =
     Some (ExpectedOid ''ba78'' ''e3b0'' 3) \<and>
   last (snd (bufferDownloadedFile demo_env demo_fs demo_path ''xyz'' 3)) ''/lfs/tmp/ba78-000000007'' =
     Some \<lparr>content = ''xyz'', mode = 384\<rparr>"
proof -
  have h: "hash demo_env ''xyz'' \<noteq> Base demo_path"
    by (simp add: Base_demo_path demo_env_simps stub_sha_def)
  show ?thesis
    using hash_mismatch_keeps_temp_file [OF TempFile_demo_call demo_env_simps(2,3) h, of 3]
    by (simp add: Base_demo_path demo_env_simps stub_sha_def)
qed

text \<open>
  Claim C4, as stated, fails: the content \<^verbatim>\<open>abc\<close> has three bytes, the declared size is
  five, the digest is the oid, and the call succeeds.
\<close>

theorem size_mismatch_accepted:
  "int (length ''abc'') \<noteq> 5 \<and>
   fst (bufferDownloadedFile demo_env demo_fs demo_path ''abc'' 5) = None"
  by (simp add: bufferDownloadedFile_def Base_demo_path TempFile_demo demo_env_simps
      demo_fs_simps CopyWithCallback_def deferred_def Let_def Stat_def IsNotExist_def stub_sha_def)

text \<open>
  Claim C4, amended. The verified write never compares the number of bytes written
  with the declared size: its result is the same for every declared size. When the
  temporary file is created, written and closed, and the stat, the chmod and the rename
  succeed, the call fails exactly when the digest of the content is not the oid, with
  the error that reports the number of bytes written.
\<close>

theorem declared_size_ignored:
  "bufferDownloadedFile env fs filename reader sz = bufferDownloadedFile env fs filename reader sz' \<and>
   (TempFile env fs (LocalObjectTempDir env) (Base filename @ ''-'') = Inr name \<and>
    copyErr env = None \<and> closeErr env = None \<and> statErr env = None \<and>
    chmodErr env = None \<and> renameErr env = None \<longrightarrow>
    fst (bufferDownloadedFile env fs filename reader sz) =
      (if hash env reader = Base filename then None
       else Some (ExpectedOid (Base filename) (hash env reader) (int (length reader)))))"
  by (auto simp: bufferDownloadedFile_def CopyWithCallback_def deferred_def Let_def
      Stat_def IsNotExist_def split: option.splits sum.splits)

theorem declared_size_ignored_witness:
  "bufferDownloadedFile demo_env demo_fs demo_path ''abc'' 5 =
     bufferDownloadedFile demo_env demo_fs demo_path ''abc'' 3 \<and>
   fst (bufferDownloadedFile demo_env demo_fs demo_path ''abc'' 5) = None"
proof -
  note t = TempFile_demo_call
  have c: "copyErr demo_env = None" "closeErr demo_env = None" "statErr demo_env = None"
    "chmodErr demo_env = None" "renameErr demo_env = None"
    by (simp_all add: demo_env_def)
  have h: "hash demo_env ''abc'' = Base demo_path"
    by (simp add: Base_demo_path demo_env_def stub_sha_def)
  note d = declared_size_ignored [of demo_env demo_fs demo_path "''abc''" 5 3
      "''/lfs/tmp/ba78-000000007''"]
  from d have "bufferDownloadedFile demo_env demo_fs demo_path ''abc'' 5 =
     bufferDownloadedFile demo_env demo_fs demo_path ''abc'' 3" by (rule conjunct1)
  moreover from d have "TempFile demo_env demo_fs (LocalObjectTempDir demo_env)
        (Base demo_path @ ''-'') = Inr ''/lfs/tmp/ba78-000000007'' \<and>
      copyErr demo_env = None \<and> closeErr demo_env = None \<and> statErr demo_env = None \<and>
      chmodErr demo_env = None \<and> renameErr demo_env = None \<longrightarrow>
      fst (bufferDownloadedFile demo_env demo_fs demo_path ''abc'' 5) =
        (if hash demo_env ''abc'' = Base demo_path then None
         else Some (ExpectedOid (Base demo_path) (hash demo_env ''abc'') (int (length ''abc''))))"
    by (rule conjunct2)
  with t c h have "fst (bufferDownloadedFile demo_env demo_fs demo_path ''abc'' 5) = None"
    by simp
  ultimately show ?thesis by (rule conjI)
qed

section \<open>The transfer queue\<close>

subsection \<open>Data\<close>

type_synonym oid = string

text \<open>A Go \<^verbatim>\<open>error\<close> value: its message and whether it carries the retriable marker that
  \<^verbatim>\<open>errors.IsRetriableError\<close> looks for.\<close>

datatype error = Err string bool

definition IsRetriableError :: "error \<Rightarrow> bool" where
  "IsRetriableError e = (case e of Err m r \<Rightarrow> r)"

datatype ObjectError = ObjectError int string

datatype Action = Action string

record objectResource =
  o_Oid :: oid
  o_Size :: int
  o_Actions :: "(string \<rightharpoonup> Action) option"
  o_Error :: "ObjectError option"

definition Rel :: "objectResource \<Rightarrow> string \<Rightarrow> Action option \<times> bool" where
  "Rel obj name =
     (case o_Actions obj of
        None \<Rightarrow> (None, False)
      | Some m \<Rightarrow> (m name, m name \<noteq> None))"

record Transferable =
  t_Oid :: oid
  t_Size :: int
  t_Name :: string
  t_Path :: string
  t_Object :: "objectResource option"

record Transfer =
  tr_Name :: string
  tr_Object :: objectResource
  tr_Path :: string

definition NewTransfer :: "string \<Rightarrow> objectResource \<Rightarrow> string \<Rightarrow> Transfer" where
  "NewTransfer name obj path = \<lparr>tr_Name = name, tr_Object = obj, tr_Path = path\<rparr>"

type_synonym TransferResult = "Transfer \<times> error option"

datatype Direction = Upload | Download

datatype meter_event =
  MeterStart | MeterSkip int | MeterStartTransfer string | MeterFinishTransfer string | MeterFinish

record watcher =
  sent :: "oid list"
  closed :: bool

datatype panic =
  NilDereference | NegativeWaitGroup | MakesliceCapOutOfRange | SendOnClosedChannel

datatype outcome = Succeeded | Skipped | FailedTerminal

subsection \<open>The retry counter\<close>

record retryCounter =
  MaxRetries :: int
  count :: "oid \<rightharpoonup> int"

datatype maxretries_setting = NotSet | Unparsable | Setting int

definition defaultMaxRetries :: int where
  "defaultMaxRetries = 1"

definition defaultBatchSize :: int where
  "defaultBatchSize = 100"

definition newRetryCounter :: "maxretries_setting \<Rightarrow> retryCounter" where
  "newRetryCounter cfg =
     (let m = (case cfg of NotSet \<Rightarrow> defaultMaxRetries | Unparsable \<Rightarrow> 1 | Setting n \<Rightarrow> n)
      in \<lparr>MaxRetries = (if m < 1 then 1 else m), count = Map.empty\<rparr>)"

definition CountFor :: "retryCounter \<Rightarrow> oid \<Rightarrow> int" where
  "CountFor r oid = (case count r oid of None \<Rightarrow> 0 | Some n \<Rightarrow> n)"

definition Increment :: "retryCounter \<Rightarrow> oid \<Rightarrow> retryCounter" where
  "Increment r oid = r\<lparr>count := (count r)(oid \<mapsto> CountFor r oid + 1)\<rparr>"

definition CanRetry :: "retryCounter \<Rightarrow> oid \<Rightarrow> int \<times> bool" where
  "CanRetry r oid = (let n = CountFor r oid in (n, n < MaxRetries r))"

subsection \<open>Batches\<close>

type_synonym Batch = "Transferable list"

definition IsFull :: "Batch \<Rightarrow> int \<Rightarrow> bool" where
  "IsFull b m = (int (length b) \<ge> m)"

definition ApiObjects :: "Batch \<Rightarrow> (oid \<times> int) list" where
  "ApiObjects b = map (\<lambda>t. (t_Oid t, t_Size t)) b"

definition Less :: "Transferable \<Rightarrow> Transferable \<Rightarrow> bool" where
  "Less a b = (t_Size a < t_Size b)"

definition Reverse :: "('a \<Rightarrow> 'a \<Rightarrow> bool) \<Rightarrow> 'a \<Rightarrow> 'a \<Rightarrow> bool" where
  "Reverse lt a b = lt b a"

subsection \<open>The queue and its surroundings\<close>

text \<open>
  The state of the queue holds the fields of the Go struct that the code reads or writes.
  A channel is the list of the values sent on it and not yet received; the wait group is
  its counter. Four fields record what the queue does, and nothing reads them: \<open>rounds\<close>
  counts the calls of \<^verbatim>\<open>enqueueAndCollectRetriesFor\<close>, \<open>requests\<close> lists the object lists
  sent to the negotiation endpoint, \<open>dispatched\<close> lists the transfers handed to
  \<^verbatim>\<open>adapter.Add\<close>, and \<open>doneLog\<close> lists the calls of \<^verbatim>\<open>q.wait.Done()\<close>, each with the oid it
  closes out and the outcome of that oid.

  The surroundings of the queue are the negotiation endpoint, the adapter and
  \<^verbatim>\<open>sort.Sort\<close>. Their answers are a parameter of the model, and they may depend on the
  round in which they are asked.
\<close>

record TransferQueue =
  direction :: Direction
  adapter :: "string option"
  adapterInProgress :: bool
  dryRun :: bool
  meter :: "meter_event list"
  errors :: "error list"
  transferables :: "oid \<rightharpoonup> Transferable"
  batchSize :: int
  incoming :: "Transferable list"
  incomingClosed :: bool
  watchers :: "watcher list"
  progressStarted :: bool
  wait :: int
  rc :: retryCounter
  rounds :: nat
  requests :: "(oid \<times> int) list list"
  dispatched :: "Transfer list"
  doneLog :: "(oid \<times> outcome) list"

record world =
  endpoint :: "nat \<Rightarrow> (oid \<times> int) list \<Rightarrow> error + (objectResource list \<times> string)"
  newAdapterOrDefault :: "string \<Rightarrow> string"
  adapterBegin :: "nat \<Rightarrow> error option"
  adapterAdd :: "nat \<Rightarrow> Transfer list \<Rightarrow> TransferResult list"
  goSort :: "(Transferable \<Rightarrow> Transferable \<Rightarrow> bool) \<Rightarrow> Batch \<Rightarrow> Batch"

definition NewTransferQueue :: "Direction \<Rightarrow> maxretries_setting \<Rightarrow> (TransferQueue \<Rightarrow> TransferQueue) list \<Rightarrow> TransferQueue" where
  "NewTransferQueue dir cfg options =
     fold (\<lambda>opt q. opt q) options
       \<lparr>direction = dir, adapter = None, adapterInProgress = False, dryRun = False,
        meter = [], errors = [], transferables = Map.empty, batchSize = defaultBatchSize,
        incoming = [], incomingClosed = False, watchers = [], progressStarted = False,
        wait = 0, rc = newRetryCounter cfg, rounds = 0, requests = [], dispatched = [],
        doneLog = []\<rparr>"

definition DryRun :: "bool \<Rightarrow> TransferQueue \<Rightarrow> TransferQueue" where
  "DryRun b q = q\<lparr>dryRun := b\<rparr>"

definition WithBatchSize :: "int \<Rightarrow> TransferQueue \<Rightarrow> TransferQueue" where
  "WithBatchSize n q = q\<lparr>batchSize := n\<rparr>"

definition andThen :: "panic + 'a \<Rightarrow> ('a \<Rightarrow> panic + 'b) \<Rightarrow> panic + 'b" where
  "andThen r f = (case r of Inl p \<Rightarrow> Inl p | Inr x \<Rightarrow> f x)"

definition wait_Done :: "oid \<Rightarrow> outcome \<Rightarrow> TransferQueue \<Rightarrow> panic + TransferQueue" where
  "wait_Done oid out q =
     (if wait q - 1 < 0 then Inl NegativeWaitGroup
      else Inr (q\<lparr>wait := wait q - 1, doneLog := doneLog q @ [(oid, out)]\<rparr>))"

definition send_error :: "error \<Rightarrow> TransferQueue \<Rightarrow> TransferQueue" where
  "send_error e q = q\<lparr>errors := errors q @ [e]\<rparr>"

definition Skip :: "int \<Rightarrow> TransferQueue \<Rightarrow> TransferQueue" where
  "Skip n q = q\<lparr>meter := meter q @ [MeterSkip n]\<rparr>"

definition transferKind :: "TransferQueue \<Rightarrow> string" where
  "transferKind q = (if direction q = Download then ''download'' else ''upload'')"

definition Add :: "Transferable \<Rightarrow> TransferQueue \<Rightarrow> panic + TransferQueue" where
  "Add t q =
     (if transferables q (t_Oid t) = None then
        let q1 = q\<lparr>wait := wait q + 1, transferables := (transferables q)(t_Oid t \<mapsto> t)\<rparr>
        in if incomingClosed q1 then Inl SendOnClosedChannel
           else Inr (q1\<lparr>incoming := incoming q1 @ [t]\<rparr>)
      else Inr q)"


definition makeBatch :: "TransferQueue \<Rightarrow> panic + Batch" where
  "makeBatch q = (if batchSize q < 0 then Inl MakesliceCapOutOfRange else Inr [])"

definition canRetry :: "error \<Rightarrow> bool" where
  "canRetry err = IsRetriableError err"

definition canRetryObject :: "TransferQueue \<Rightarrow> oid \<Rightarrow> error \<Rightarrow> bool" where
  "canRetryObject q oid err =
     (case CanRetry (rc q) oid of (n, ok) \<Rightarrow> if \<not> ok then False else canRetry err)"

text \<open>
  The batch call returns at once, without a request, when it is given no object, as the
  guard at the head of \<^verbatim>\<open>tqClient.Batch\<close> does. Every other call is a request to the
  endpoint.
\<close>

definition Batch :: "world \<Rightarrow> TransferQueue \<Rightarrow> (oid \<times> int) list \<Rightarrow>
    (error + (objectResource list \<times> string)) \<times> TransferQueue" where
  "Batch w q objects =
     (if length objects = 0 then (Inr ([], []), q)
      else (endpoint w (rounds q) objects, q\<lparr>requests := requests q @ [objects]\<rparr>))"

definition finishAdapter :: "TransferQueue \<Rightarrow> TransferQueue" where
  "finishAdapter q =
     (if adapterInProgress q then q\<lparr>adapterInProgress := False, adapter := None\<rparr> else q)"

definition useAdapter :: "world \<Rightarrow> string \<Rightarrow> TransferQueue \<Rightarrow> TransferQueue" where
  "useAdapter w name q =
     (case adapter q of
        Some n \<Rightarrow>
          if n = name then q
          else (finishAdapter q)\<lparr>adapter := Some (newAdapterOrDefault w name)\<rparr>
      | None \<Rightarrow> q\<lparr>adapter := Some (newAdapterOrDefault w name)\<rparr>)"

definition startProgress :: "TransferQueue \<Rightarrow> TransferQueue" where
  "startProgress q =
     (if progressStarted q then q
      else q\<lparr>meter := meter q @ [MeterStart], progressStarted := True\<rparr>)"

definition ensureAdapterBegun :: "world \<Rightarrow> TransferQueue \<Rightarrow> error option \<times> TransferQueue" where
  "ensureAdapterBegun w q =
     (if adapterInProgress q then (None, q)
      else (case adapterBegin w (rounds q) of
              Some err \<Rightarrow> (Some err, q)
            | None \<Rightarrow> (None, q\<lparr>adapterInProgress := True\<rparr>)))"

definition notify :: "oid \<Rightarrow> watcher \<Rightarrow> watcher" where
  "notify oid c = c\<lparr>sent := sent c @ [oid]\<rparr>"

definition handleTransferResult ::
  "TransferResult \<Rightarrow> Batch \<times> TransferQueue \<Rightarrow> panic + Batch \<times> TransferQueue" where
  "handleTransferResult res s =
     (case s of (retries, q) \<Rightarrow>
      let oid = o_Oid (tr_Object (fst res)) in
      case snd res of
        Some err \<Rightarrow>
          if canRetryObject q oid err then
            (case transferables q oid of
               Some t \<Rightarrow> Inr (retries @ [t], q)
             | None \<Rightarrow> Inr (retries, send_error err q))
          else andThen (wait_Done oid FailedTerminal (send_error err q)) (\<lambda>q'. Inr (retries, q'))
      | None \<Rightarrow>
          let q1 = q\<lparr>watchers := map (notify oid) (watchers q)\<rparr>;
              q2 = q1\<lparr>meter := meter q1 @ [MeterFinishTransfer (tr_Name (fst res))]\<rparr>
          in andThen (wait_Done oid Succeeded q2) (\<lambda>q'. Inr (retries, q')))"

fun handleResults :: "TransferResult list \<Rightarrow> Batch \<times> TransferQueue \<Rightarrow> panic + Batch \<times> TransferQueue" where
  "handleResults [] s = Inr s"
| "handleResults (res # rest) s = andThen (handleTransferResult res s) (handleResults rest)"

definition makeDryRunResults :: "Transfer list \<Rightarrow> TransferResult list" where
  "makeDryRunResults ts = map (\<lambda>t. (t, None)) ts"

fun skipPending :: "Transfer list \<Rightarrow> TransferQueue \<Rightarrow> panic + TransferQueue" where
  "skipPending [] q = Inr q"
| "skipPending (t # ts) q =
     andThen (wait_Done (o_Oid (tr_Object t)) FailedTerminal (Skip (o_Size (tr_Object t)) q))
       (skipPending ts)"

definition addToAdapter :: "world \<Rightarrow> Transfer list \<Rightarrow> TransferQueue \<Rightarrow> panic + Batch \<times> TransferQueue" where
  "addToAdapter w pending q =
     (case ensureAdapterBegun w q of
        (Some err, q1) \<Rightarrow> andThen (skipPending pending (send_error err q1)) (\<lambda>q'. Inr ([], q'))
      | (None, q1) \<Rightarrow>
          if dryRun q1 then handleResults (makeDryRunResults pending) ([], q1)
          else handleResults (adapterAdd w (rounds q1) pending)
                 ([], q1\<lparr>dispatched := dispatched q1 @ pending\<rparr>))"

definition Wrapf :: "ObjectError \<Rightarrow> oid \<Rightarrow> error" where
  "Wrapf e oid = (case e of ObjectError c m \<Rightarrow> Err (''['' @ oid @ ''] '' @ m) False)"

definition SetObject :: "oid \<Rightarrow> Transferable \<Rightarrow> objectResource \<Rightarrow> TransferQueue \<Rightarrow> TransferQueue" where
  "SetObject key t obj q = q\<lparr>transferables := (transferables q)(key \<mapsto> t\<lparr>t_Object := Some obj\<rparr>)\<rparr>"

definition negotiated ::
  "objectResource \<Rightarrow> Transfer list \<times> TransferQueue \<Rightarrow> panic + Transfer list \<times> TransferQueue" where
  "negotiated obj s =
     (case s of (toTransfer, q) \<Rightarrow>
      case o_Error obj of
        Some e \<Rightarrow>
          andThen (wait_Done (o_Oid obj) FailedTerminal (Skip (o_Size obj) (send_error (Wrapf e (o_Oid obj)) q)))
            (\<lambda>q'. Inr (toTransfer, q'))
      | None \<Rightarrow>
          if snd (Rel obj (transferKind q)) then
            (case transferables q (o_Oid obj) of
               Some t \<Rightarrow>
                 let q1 = SetObject (o_Oid obj) t obj q;
                     q2 = q1\<lparr>meter := meter q1 @ [MeterStartTransfer (t_Name t)]\<rparr>
                 in Inr (toTransfer @ [NewTransfer (t_Name t) obj (t_Path t)], q2)
             | None \<Rightarrow> Inl NilDereference)
          else andThen (wait_Done (o_Oid obj) Skipped (Skip (o_Size obj) q))
                 (\<lambda>q'. Inr (toTransfer, q')))"

fun negotiatedAll ::
  "objectResource list \<Rightarrow> Transfer list \<times> TransferQueue \<Rightarrow> panic + Transfer list \<times> TransferQueue" where
  "negotiatedAll [] s = Inr s"
| "negotiatedAll (obj # objs) s = andThen (negotiated obj s) (negotiatedAll objs)"

definition retryOrFail :: "error \<Rightarrow> Transferable \<Rightarrow> Batch \<times> TransferQueue \<Rightarrow> panic + Batch \<times> TransferQueue" where
  "retryOrFail err t s =
     (case s of (next, q) \<Rightarrow>
      if canRetryObject q (t_Oid t) err
      then Inr (next @ [t], q\<lparr>rc := Increment (rc q) (t_Oid t)\<rparr>)
      else andThen (wait_Done (t_Oid t) FailedTerminal q) (\<lambda>q'. Inr (next, q')))"

fun retryOrFailAll :: "error \<Rightarrow> Batch \<Rightarrow> Batch \<times> TransferQueue \<Rightarrow> panic + Batch \<times> TransferQueue" where
  "retryOrFailAll err [] s = Inr s"
| "retryOrFailAll err (t # ts) s = andThen (retryOrFail err t s) (retryOrFailAll err ts)"

fun enqueueRetries :: "Batch \<Rightarrow> Batch \<times> TransferQueue \<Rightarrow> Batch \<times> TransferQueue" where
  "enqueueRetries [] s = s"
| "enqueueRetries (t # ts) (next, q) =
     enqueueRetries ts (next @ [t], q\<lparr>rc := Increment (rc q) (t_Oid t)\<rparr>)"

definition enqueueAndCollectRetriesFor ::
  "world \<Rightarrow> Batch \<Rightarrow> TransferQueue \<Rightarrow> panic + Batch \<times> error option \<times> TransferQueue" where
  "enqueueAndCollectRetriesFor w batch q0 =
     andThen (makeBatch q0) (\<lambda>next.
       case Batch w q0 (ApiObjects batch) of
         (Inl err, q) \<Rightarrow>
           andThen (retryOrFailAll err batch (next, q))
             (\<lambda>(next', q'). Inr (next', Some err, q'\<lparr>rounds := Suc (rounds q')\<rparr>))
       | (Inr (objs, adapterName), q) \<Rightarrow>
           andThen (negotiatedAll objs ([], startProgress (useAdapter w adapterName q)))
             (\<lambda>(toTransfer, q1).
                andThen (addToAdapter w toTransfer q1)
                  (\<lambda>(retries, q2).
                     case enqueueRetries retries (next, q2) of
                       (next', q3) \<Rightarrow> Inr (next', None, q3\<lparr>rounds := Suc (rounds q3)\<rparr>))))"

subsection \<open>The batching loop\<close>

text \<open>
  \<^verbatim>\<open>collectBatches\<close> runs in a goroutine of its own. Its inner loop blocks on the channel
  until the batch is full or the channel is closed, so the batches it forms are a function
  of the sequence of objects sent on the channel, whatever the interleaving with \<^verbatim>\<open>Add\<close>.
  The loop is therefore run on that sequence inside \<^verbatim>\<open>Wait\<close>, once the channel is closed.
  \<open>fill\<close> is the inner loop; it yields \<open>None\<close> where the goroutine would block on an open
  and empty channel. \<open>collectLoop\<close> is the outer loop, and it yields \<open>None\<close> when it runs
  for ever. \<^verbatim>\<open>Wait\<close> yields \<open>None\<close> as well when the loop has ended with a wait group that
  is not zero, where \<^verbatim>\<open>q.wait.Wait()\<close> never returns.
\<close>

fun fill :: "bool \<Rightarrow> int \<Rightarrow> bool \<Rightarrow> Batch \<Rightarrow> Transferable list \<Rightarrow> (bool \<times> Batch \<times> Transferable list) option" where
  "fill chClosed m closing batch [] =
     (if \<not> closing \<and> \<not> IsFull batch m
      then (if chClosed then Some (True, batch, []) else None)
      else Some (closing, batch, []))"
| "fill chClosed m closing batch (t # ts) =
     (if \<not> closing \<and> \<not> IsFull batch m
      then fill chClosed m closing (batch @ [t]) ts
      else Some (closing, batch, t # ts))"

definition iteration ::
  "world \<Rightarrow> bool \<Rightarrow> Batch \<Rightarrow> TransferQueue \<Rightarrow> (panic + bool \<times> Batch \<times> TransferQueue) option" where
  "iteration w closing batch q =
     (case fill (incomingClosed q) (batchSize q) closing batch (incoming q) of
        None \<Rightarrow> None
      | Some (closing', batch', rest) \<Rightarrow>
          Some (andThen
            (enqueueAndCollectRetriesFor w (goSort w (Reverse Less) batch') (q\<lparr>incoming := rest\<rparr>))
            (\<lambda>(retries, err, q').
               Inr (closing', retries, (case err of Some e \<Rightarrow> send_error e q' | None \<Rightarrow> q')))))"

partial_function (option) collectLoop ::
  "world \<Rightarrow> bool \<Rightarrow> Batch \<Rightarrow> TransferQueue \<Rightarrow> (panic + TransferQueue) option" where
  "collectLoop w closing batch q =
     (case iteration w closing batch q of
        None \<Rightarrow> None
      | Some (Inl p) \<Rightarrow> Some (Inl p)
      | Some (Inr (closing', retries, q')) \<Rightarrow>
          if closing' \<and> length retries = 0 then Some (Inr q')
          else collectLoop w closing' retries q')"

definition collectBatches :: "world \<Rightarrow> TransferQueue \<Rightarrow> (panic + TransferQueue) option" where
  "collectBatches w q =
     (case makeBatch q of
        Inl p \<Rightarrow> Some (Inl p)
      | Inr batch \<Rightarrow> collectLoop w False batch q)"

definition Wait :: "world \<Rightarrow> TransferQueue \<Rightarrow> (panic + TransferQueue) option" where
  "Wait w q =
     (case collectBatches w (q\<lparr>incomingClosed := True\<rparr>) of
        None \<Rightarrow> None
      | Some (Inl p) \<Rightarrow> Some (Inl p)
      | Some (Inr q1) \<Rightarrow>
          if wait q1 \<noteq> 0 then None
          else let q2 = finishAdapter q1;
                   q3 = q2\<lparr>watchers := map (\<lambda>c. c\<lparr>closed := True\<rparr>) (watchers q2)\<rparr>
               in Some (Inr (q3\<lparr>meter := meter q3 @ [MeterFinish]\<rparr>)))"

fun AddAll :: "Transferable list \<Rightarrow> TransferQueue \<Rightarrow> panic + TransferQueue" where
  "AddAll [] q = Inr q"
| "AddAll (t # ts) q = andThen (Add t q) (AddAll ts)"

lemma andThen_simps [simp]:
  "andThen (Inl p) f = Inl p"
  "andThen (Inr x) f = f x"
  by (simp_all add: andThen_def)

lemma CountFor_Increment:
  "CountFor (Increment r a) b = (if b = a then CountFor r a + 1 else CountFor r b)"
  by (simp add: CountFor_def Increment_def)

lemma MaxRetries_Increment [simp]: "MaxRetries (Increment r a) = MaxRetries r"
  by (simp add: Increment_def)

definition hasBudget :: "TransferQueue \<Rightarrow> oid \<Rightarrow> bool" where
  "hasBudget q oid = (CountFor (rc q) oid < MaxRetries (rc q))"

lemma canRetryObject_iff:
  "canRetryObject q oid err = (hasBudget q oid \<and> IsRetriableError err)"
  by (simp add: canRetryObject_def CanRetry_def Let_def canRetry_def hasBudget_def)

lemma retryOrFailAll_retriable:
  assumes "IsRetriableError err" "distinct (map t_Oid ts)"
    and "int (length (filter (\<lambda>t. \<not> hasBudget q (t_Oid t)) ts)) \<le> wait q"
  shows "retryOrFailAll err ts (next, q) =
     Inr (next @ filter (\<lambda>t. hasBudget q (t_Oid t)) ts,
          q\<lparr>rc := fold (\<lambda>t r. Increment r (t_Oid t)) (filter (\<lambda>t. hasBudget q (t_Oid t)) ts) (rc q),
            wait := wait q - int (length (filter (\<lambda>t. \<not> hasBudget q (t_Oid t)) ts)),
            doneLog := doneLog q @ map (\<lambda>t. (t_Oid t, FailedTerminal))
                          (filter (\<lambda>t. \<not> hasBudget q (t_Oid t)) ts)\<rparr>)"
  using assms
proof (induction ts arbitrary: "next" q)
  case Nil
  show ?case by simp
next
  case (Cons t ts)
  show ?case
  proof (cases "hasBudget q (t_Oid t)")
    case True
    let ?q1 = "q\<lparr>rc := Increment (rc q) (t_Oid t)\<rparr>"
    have same: "\<And>u. u \<in> set ts \<Longrightarrow> hasBudget ?q1 (t_Oid u) = hasBudget q (t_Oid u)"
    proof -
      fix u assume "u \<in> set ts"
      then have "t_Oid u \<in> t_Oid ` set ts" by (rule imageI)
      moreover have "t_Oid t \<notin> t_Oid ` set ts" using Cons.prems(2) by simp
      ultimately have "t_Oid u \<noteq> t_Oid t" by metis
      then show "hasBudget ?q1 (t_Oid u) = hasBudget q (t_Oid u)"
        by (simp add: hasBudget_def CountFor_Increment)
    qed
    then have f: "filter (\<lambda>u. hasBudget ?q1 (t_Oid u)) ts = filter (\<lambda>u. hasBudget q (t_Oid u)) ts"
      "filter (\<lambda>u. \<not> hasBudget ?q1 (t_Oid u)) ts = filter (\<lambda>u. \<not> hasBudget q (t_Oid u)) ts"
      by (auto intro: filter_cong)
    have "retryOrFailAll err ts (next @ [t], ?q1) = Inr (
        (next @ [t]) @ filter (\<lambda>t. hasBudget ?q1 (t_Oid t)) ts,
          ?q1\<lparr>rc := fold (\<lambda>t r. Increment r (t_Oid t)) (filter (\<lambda>t. hasBudget ?q1 (t_Oid t)) ts) (rc ?q1),
            wait := wait ?q1 - int (length (filter (\<lambda>t. \<not> hasBudget ?q1 (t_Oid t)) ts)),
            doneLog := doneLog ?q1 @ map (\<lambda>t. (t_Oid t, FailedTerminal))
                          (filter (\<lambda>t. \<not> hasBudget ?q1 (t_Oid t)) ts)\<rparr>)"
      apply (rule Cons.IH)
      using Cons.prems True by (simp_all add: f)
    then show ?thesis
      using True Cons.prems(1) by (simp add: retryOrFail_def canRetryObject_iff f)
  next
    case False
    let ?q1 = "q\<lparr>wait := wait q - 1, doneLog := doneLog q @ [(t_Oid t, FailedTerminal)]\<rparr>"
    have w: "\<not> wait q - 1 < 0" using Cons.prems(3) False by simp
    have f: "filter (\<lambda>u. hasBudget ?q1 (t_Oid u)) ts = filter (\<lambda>u. hasBudget q (t_Oid u)) ts"
      "filter (\<lambda>u. \<not> hasBudget ?q1 (t_Oid u)) ts = filter (\<lambda>u. \<not> hasBudget q (t_Oid u)) ts"
      by (simp_all add: hasBudget_def)
    have "retryOrFailAll err ts (next, ?q1) = Inr (
        next @ filter (\<lambda>t. hasBudget ?q1 (t_Oid t)) ts,
          ?q1\<lparr>rc := fold (\<lambda>t r. Increment r (t_Oid t)) (filter (\<lambda>t. hasBudget ?q1 (t_Oid t)) ts) (rc ?q1),
            wait := wait ?q1 - int (length (filter (\<lambda>t. \<not> hasBudget ?q1 (t_Oid t)) ts)),
            doneLog := doneLog ?q1 @ map (\<lambda>t. (t_Oid t, FailedTerminal))
                          (filter (\<lambda>t. \<not> hasBudget ?q1 (t_Oid t)) ts)\<rparr>)"
      apply (rule Cons.IH)
      using Cons.prems False by (simp_all add: f)
    then show ?thesis
      using False w by (simp add: retryOrFail_def canRetryObject_iff f wait_Done_def)
  qed
qed

lemma retryOrFailAll_terminal:
  assumes "\<not> IsRetriableError err" "int (length ts) \<le> wait q"
  shows "retryOrFailAll err ts (next, q) =
     Inr (next, q\<lparr>wait := wait q - int (length ts),
            doneLog := doneLog q @ map (\<lambda>t. (t_Oid t, FailedTerminal)) ts\<rparr>)"
  using assms
proof (induction ts arbitrary: q)
  case Nil
  show ?case by simp
next
  case (Cons t ts)
  let ?q1 = "q\<lparr>wait := wait q - 1, doneLog := doneLog q @ [(t_Oid t, FailedTerminal)]\<rparr>"
  have "retryOrFailAll err ts (next, ?q1) =
     Inr (next, ?q1\<lparr>wait := wait ?q1 - int (length ts),
            doneLog := doneLog ?q1 @ map (\<lambda>t. (t_Oid t, FailedTerminal)) ts\<rparr>)"
    by (rule Cons.IH) (use Cons.prems in simp_all)
  then show ?case
    using Cons.prems by (simp add: retryOrFail_def canRetryObject_iff wait_Done_def)
qed

lemma CountFor_fold_Increment:
  "distinct (map t_Oid ts) \<Longrightarrow>
   CountFor (fold (\<lambda>t r. Increment r (t_Oid t)) ts r) a =
     (if a \<in> t_Oid ` set ts then CountFor r a + 1 else CountFor r a)"
  by (induction ts arbitrary: r) (auto simp: CountFor_Increment)

lemma snd_CanRetry: "snd (CanRetry (rc q) oid) = hasBudget q oid"
  by (simp add: CanRetry_def Let_def hasBudget_def)

lemma length_filter_le_wait:
  "int (length ts) \<le> w \<Longrightarrow> int (length (filter P ts)) \<le> w"
  using length_filter_le [of P ts] by linarith

text \<open>
  Claim C6, amended. When the negotiation call for a batch fails with error \<open>err\<close>, the
  objects requeued into the next batch are those that still have retry budget, and only
  if \<open>err\<close> is retriable; each of them has its retry counter incremented by one. Every
  other object of the batch is closed out as failed (one \<^verbatim>\<open>wait.Done\<close> each): with an
  error that is not retriable, that is every object of the batch, whatever its budget.
\<close>

theorem negotiation_failure_requeue:
  assumes "endpoint w (rounds q) (ApiObjects batch) = Inl err" and "batch \<noteq> []"
      and "distinct (map t_Oid batch)" and "int (length batch) \<le> wait q"
      and "0 \<le> batchSize q"
  shows "\<exists>q'. enqueueAndCollectRetriesFor w batch q =
            Inr (filter (\<lambda>t. snd (CanRetry (rc q) (t_Oid t)) \<and> IsRetriableError err) batch,
                 Some err, q') \<and>
          doneLog q' = doneLog q @ map (\<lambda>t. (t_Oid t, FailedTerminal))
             (filter (\<lambda>t. \<not> (snd (CanRetry (rc q) (t_Oid t)) \<and> IsRetriableError err)) batch) \<and>
          wait q' = wait q - int (length
             (filter (\<lambda>t. \<not> (snd (CanRetry (rc q) (t_Oid t)) \<and> IsRetriableError err)) batch)) \<and>
          (\<forall>t \<in> set batch. CountFor (rc q') (t_Oid t) =
             (if snd (CanRetry (rc q) (t_Oid t)) \<and> IsRetriableError err
              then CountFor (rc q) (t_Oid t) + 1 else CountFor (rc q) (t_Oid t)))"
proof -
  let ?q = "q\<lparr>requests := requests q @ [ApiObjects batch]\<rparr>"
  have b: "Batch w q (ApiObjects batch) = (Inl err, ?q)"
    using assms(1,2) by (simp add: Batch_def ApiObjects_def)
  have mb: "makeBatch q = Inr []" using assms(5) by (simp add: makeBatch_def)
  have hb: "\<And>oid. hasBudget ?q oid = hasBudget q oid" by (simp add: hasBudget_def)
  show ?thesis
  proof (cases "IsRetriableError err")
    case True
    have "int (length (filter (\<lambda>t. \<not> hasBudget ?q (t_Oid t)) batch)) \<le> wait ?q"
      using assms(4) length_filter_le_wait by simp
    from retryOrFailAll_retriable [OF True assms(3) this, of "[]"] True b mb
    show ?thesis
      by (auto simp: enqueueAndCollectRetriesFor_def snd_CanRetry hb
          CountFor_fold_Increment assms(3) distinct_map_filter)
  next
    case False
    have "int (length batch) \<le> wait ?q" using assms(4) by simp
    from retryOrFailAll_terminal [OF False this, of "[]"] False b mb
    show ?thesis
      by (simp add: enqueueAndCollectRetriesFor_def)
  qed
qed

fun ins :: "('a \<Rightarrow> 'a \<Rightarrow> bool) \<Rightarrow> 'a \<Rightarrow> 'a list \<Rightarrow> 'a list" where
  "ins lt x [] = [x]"
| "ins lt x (y # ys) = (if lt x y then x # y # ys else y # ins lt x ys)"

definition insertionSort :: "('a \<Rightarrow> 'a \<Rightarrow> bool) \<Rightarrow> 'a list \<Rightarrow> 'a list" where
  "insertionSort lt xs = foldl (\<lambda>acc x. ins lt x acc) [] xs"

definition demo_t :: Transferable where
  "demo_t = \<lparr>t_Oid = ''aaaa'', t_Size = 1024, t_Name = ''a.bin'',
     t_Path = ''/lfs/objects/aaaa'', t_Object = None\<rparr>"

definition granted :: "oid \<times> int \<Rightarrow> objectResource" where
  "granted r = \<lparr>o_Oid = fst r, o_Size = snd r,
     o_Actions = Some [''download'' \<mapsto> Action ''https://lfs.example/objects''], o_Error = None\<rparr>"

definition demo_world :: world where
  "demo_world = \<lparr>endpoint = (\<lambda>k reqs. Inr (map granted reqs, ''basic'')),
     newAdapterOrDefault = (\<lambda>name. ''basic''),
     adapterBegin = (\<lambda>k. None),
     adapterAdd = (\<lambda>k ts. map (\<lambda>t. (t, None)) ts),
     goSort = insertionSort\<rparr>"

definition demo_q :: TransferQueue where
  "demo_q = (NewTransferQueue Download NotSet [])\<lparr>wait := 1, transferables := [''aaaa'' \<mapsto> demo_t]\<rparr>"

lemma Add_demo_t:
  "Add demo_t (NewTransferQueue Download NotSet []) = Inr (demo_q\<lparr>incoming := [demo_t]\<rparr>)"
  by (simp add: Add_def NewTransferQueue_def demo_q_def demo_t_def Let_def)

definition refusing_world :: world where
  "refusing_world = demo_world\<lparr>endpoint := (\<lambda>k reqs. Inl (Err ''403 forbidden'' False))\<rparr>"

definition flaky_world :: world where
  "flaky_world = demo_world\<lparr>endpoint := (\<lambda>k reqs. Inl (Err ''503 unavailable'' True))\<rparr>"

definition ghost_world :: world where
  "ghost_world = demo_world\<lparr>endpoint := (\<lambda>k reqs. Inr ([granted (''bbbb'', 7)], ''basic''))\<rparr>"

lemma demo_q_simps:
  "wait demo_q = 1" "batchSize demo_q = 100" "rounds demo_q = 0" "doneLog demo_q = []"
  "CountFor (rc demo_q) oid = 0" "MaxRetries (rc demo_q) = 1" "requests demo_q = []"
  "transferables demo_q = [''aaaa'' \<mapsto> demo_t]" "direction demo_q = Download"
  "adapter demo_q = None" "progressStarted demo_q = False" "adapterInProgress demo_q = False"
  "dryRun demo_q = False" "incoming demo_q = []" "errors demo_q = []" "dispatched demo_q = []"
  "watchers demo_q = []" "incomingClosed demo_q = False"
  by (simp_all add: demo_q_def NewTransferQueue_def defaultBatchSize_def newRetryCounter_def
      defaultMaxRetries_def CountFor_def)

text \<open>
  Claim C6, as stated, fails: the object has made no retry yet and one retry is allowed,
  the negotiation call fails with an error that is not retriable, and the object is
  closed out instead of being requeued.
\<close>

theorem budget_left_but_closed_out:
  "snd (CanRetry (rc demo_q) ''aaaa'') \<and>
   enqueueAndCollectRetriesFor refusing_world [demo_t] demo_q =
     Inr ([], Some (Err ''403 forbidden'' False),
          demo_q\<lparr>requests := [[(''aaaa'', 1024)]], wait := 0,
                 doneLog := [(''aaaa'', FailedTerminal)], rounds := 1\<rparr>)"
  by (simp add: enqueueAndCollectRetriesFor_def makeBatch_def Batch_def ApiObjects_def
      refusing_world_def demo_world_def demo_q_simps retryOrFail_def canRetryObject_def
      CanRetry_def Let_def canRetry_def IsRetriableError_def wait_Done_def demo_t_def)

theorem negotiation_failure_requeue_witness:
  "\<exists>q'. enqueueAndCollectRetriesFor flaky_world [demo_t] demo_q =
            Inr ([demo_t], Some (Err ''503 unavailable'' True), q') \<and>
        doneLog q' = [] \<and> wait q' = 1 \<and> CountFor (rc q') ''aaaa'' = 1"
proof -
  have e: "endpoint flaky_world (rounds demo_q) (ApiObjects [demo_t]) = Inl (Err ''503 unavailable'' True)"
    by (simp add: flaky_world_def demo_world_def)
  have c: "snd (CanRetry (rc demo_q) (t_Oid demo_t))"
    by (simp add: CanRetry_def Let_def demo_q_simps)
  have "[demo_t] \<noteq> []" "distinct (map t_Oid [demo_t])" "int (length [demo_t]) \<le> wait demo_q"
    "0 \<le> batchSize demo_q"
    by (simp_all add: demo_q_simps)
  from negotiation_failure_requeue [OF e this] c show ?thesis
    by (simp add: demo_q_simps IsRetriableError_def) (simp add: demo_t_def)
qed

text \<open>
  Claim C9. The server answers the request for \<^verbatim>\<open>aaaa\<close> with an object \<^verbatim>\<open>bbbb\<close> that
  carries a download action and that the queue has never been given. The lookup in the
  map of transferables yields the nil interface value, and \<^verbatim>\<open>q.Skip(t.Size())\<close> calls a
  method on it: the goroutine panics before \<^verbatim>\<open>q.wait.Done()\<close>.
\<close>

theorem unknown_object_panics:
  "enqueueAndCollectRetriesFor ghost_world [demo_t] demo_q = Inl NilDereference"
  by (simp add: enqueueAndCollectRetriesFor_def makeBatch_def Batch_def ApiObjects_def
      ghost_world_def demo_world_def demo_q_simps negotiated_def granted_def Rel_def
      transferKind_def useAdapter_def startProgress_def)

subsection \<open>What the adapter bookkeeping leaves alone\<close>

lemma useAdapter_frame [simp]:
  "direction (useAdapter w n q) = direction q"
  "dryRun (useAdapter w n q) = dryRun q"
  "meter (useAdapter w n q) = meter q"
  "errors (useAdapter w n q) = errors q"
  "transferables (useAdapter w n q) = transferables q"
  "batchSize (useAdapter w n q) = batchSize q"
  "incoming (useAdapter w n q) = incoming q"
  "incomingClosed (useAdapter w n q) = incomingClosed q"
  "watchers (useAdapter w n q) = watchers q"
  "progressStarted (useAdapter w n q) = progressStarted q"
  "wait (useAdapter w n q) = wait q"
  "rc (useAdapter w n q) = rc q"
  "rounds (useAdapter w n q) = rounds q"
  "requests (useAdapter w n q) = requests q"
  "dispatched (useAdapter w n q) = dispatched q"
  "doneLog (useAdapter w n q) = doneLog q"
  by (simp_all add: useAdapter_def finishAdapter_def split: option.split)

lemma startProgress_frame [simp]:
  "direction (startProgress q) = direction q"
  "dryRun (startProgress q) = dryRun q"
  "errors (startProgress q) = errors q"
  "transferables (startProgress q) = transferables q"
  "batchSize (startProgress q) = batchSize q"
  "incoming (startProgress q) = incoming q"
  "incomingClosed (startProgress q) = incomingClosed q"
  "watchers (startProgress q) = watchers q"
  "wait (startProgress q) = wait q"
  "rc (startProgress q) = rc q"
  "rounds (startProgress q) = rounds q"
  "requests (startProgress q) = requests q"
  "dispatched (startProgress q) = dispatched q"
  "doneLog (startProgress q) = doneLog q"
  "adapter (startProgress q) = adapter q"
  "adapterInProgress (startProgress q) = adapterInProgress q"
  by (simp_all add: startProgress_def)


lemma transferKind_frame [simp]:
  "transferKind (useAdapter w n q) = transferKind q"
  "transferKind (startProgress q) = transferKind q"
  by (simp_all add: transferKind_def)

subsection \<open>One object whose every transfer fails\<close>

definition sort_contract :: "world \<Rightarrow> bool" where
  "sort_contract w =
     (\<forall>xs. mset (goSort w (Reverse Less) xs) = mset xs \<and>
           sorted_wrt (\<lambda>a b. \<not> Reverse Less b a) (goSort w (Reverse Less) xs))"










definition run :: "world \<Rightarrow> TransferQueue \<Rightarrow> Transferable list \<Rightarrow> (panic + TransferQueue) option" where
  "run w q ts = (case AddAll ts q of Inl p \<Rightarrow> Some (Inl p) | Inr q1 \<Rightarrow> Wait w q1)"


lemma NewTransferQueue_simps:
  "transferables (NewTransferQueue dir cfg [WithBatchSize B]) = Map.empty"
  "incomingClosed (NewTransferQueue dir cfg [WithBatchSize B]) = False"
  "incoming (NewTransferQueue dir cfg [WithBatchSize B]) = []"
  "dryRun (NewTransferQueue dir cfg [WithBatchSize B]) = False"
  "batchSize (NewTransferQueue dir cfg [WithBatchSize B]) = B"
  "wait (NewTransferQueue dir cfg [WithBatchSize B]) = 0"
  "rounds (NewTransferQueue dir cfg [WithBatchSize B]) = 0"
  "errors (NewTransferQueue dir cfg [WithBatchSize B]) = []"
  "dispatched (NewTransferQueue dir cfg [WithBatchSize B]) = []"
  "requests (NewTransferQueue dir cfg [WithBatchSize B]) = []"
  "doneLog (NewTransferQueue dir cfg [WithBatchSize B]) = []"
  "watchers (NewTransferQueue dir cfg [WithBatchSize B]) = []"
  "direction (NewTransferQueue dir cfg [WithBatchSize B]) = dir"
  "rc (NewTransferQueue dir cfg [WithBatchSize B]) = newRetryCounter cfg"
  by (simp_all add: NewTransferQueue_def WithBatchSize_def)



subsection \<open>A sort that meets the contract\<close>

lemma mset_ins [simp]: "mset (ins lt x ys) = add_mset x (mset ys)"
  by (induction ys) simp_all

lemma set_ins [simp]: "set (ins lt x ys) = insert x (set ys)"
  by (induction ys) auto

lemma mset_foldl_ins: "mset (foldl (\<lambda>acc x. ins lt x acc) acc xs) = mset acc + mset xs"
  by (induction xs arbitrary: acc) simp_all

lemma sorted_ins_Reverse_Less:
  "sorted_wrt (\<lambda>a b. \<not> Reverse Less b a) ys \<Longrightarrow>
   sorted_wrt (\<lambda>a b. \<not> Reverse Less b a) (ins (Reverse Less) x ys)"
  by (induction ys) (auto simp: Reverse_def Less_def)

lemma sorted_foldl_ins:
  "sorted_wrt (\<lambda>a b. \<not> Reverse Less b a) acc \<Longrightarrow>
   sorted_wrt (\<lambda>a b. \<not> Reverse Less b a) (foldl (\<lambda>acc x. ins (Reverse Less) x acc) acc xs)"
  by (induction xs arbitrary: acc) (simp_all add: sorted_ins_Reverse_Less)

lemma insertionSort_contract:
  "goSort w = insertionSort \<Longrightarrow> sort_contract w"
  by (simp add: sort_contract_def insertionSort_def mset_foldl_ins sorted_foldl_ins)

definition failing_world :: world where
  "failing_world =
     demo_world\<lparr>adapterAdd := (\<lambda>k ts. map (\<lambda>tr. (tr, Some (Err ''timeout'' True))) ts)\<rparr>"



section \<open>Accounting of a whole run\<close>

subsection \<open>The contracts of the collaborators\<close>

text \<open>
  The negotiation endpoint answers a request with one object for each requested oid, in
  any order. The adapter yields one result for each transfer it is given, in the order
  of completion. \<^verbatim>\<open>sort.Sort\<close> permutes its argument into an order in which no element
  is less than an earlier one.
\<close>

definition api_contract :: "world \<Rightarrow> bool" where
  "api_contract w =
     (\<forall>k reqs objs name. endpoint w k reqs = Inr (objs, name) \<longrightarrow>
        mset (map o_Oid objs) = mset (map fst reqs))"

definition adapter_contract :: "world \<Rightarrow> bool" where
  "adapter_contract w = (\<forall>k ts. mset (map fst (adapterAdd w k ts)) = mset ts)"

definition well_behaved :: "world \<Rightarrow> bool" where
  "well_behaved w = (api_contract w \<and> adapter_contract w \<and> sort_contract w)"

subsection \<open>The effect of closing out a list of objects\<close>

definition succeeded :: "(oid \<times> outcome) list \<Rightarrow> oid list" where
  "succeeded l = map fst (filter (\<lambda>x. snd x = Succeeded) l)"

definition keyed :: "TransferQueue \<Rightarrow> bool" where
  "keyed q = (\<forall>k t. transferables q k = Some t \<longrightarrow> t_Oid t = k)"

definition same_frame :: "TransferQueue \<Rightarrow> TransferQueue \<Rightarrow> bool" where
  "same_frame q q' =
     (incoming q' = incoming q \<and> incomingClosed q' = incomingClosed q \<and>
      batchSize q' = batchSize q \<and> dryRun q' = dryRun q \<and> direction q' = direction q \<and>
      MaxRetries (rc q') = MaxRetries (rc q) \<and> requests q' = requests q \<and>
      rounds q' = rounds q)"

definition counts_grow :: "TransferQueue \<Rightarrow> TransferQueue \<Rightarrow> bool" where
  "counts_grow q q' = (\<forall>oid. CountFor (rc q) oid \<le> CountFor (rc q') oid)"

definition same_keys :: "TransferQueue \<Rightarrow> TransferQueue \<Rightarrow> bool" where
  "same_keys q q' =
     ((\<forall>k. (transferables q' k = None) = (transferables q k = None)) \<and>
      (\<forall>k t'. transferables q' k = Some t' \<longrightarrow>
         (\<exists>t. transferables q k = Some t \<and> t_Oid t' = t_Oid t \<and> t_Size t' = t_Size t)))"

definition closes :: "TransferQueue \<Rightarrow> TransferQueue \<Rightarrow> (oid \<times> outcome) list \<Rightarrow> bool" where
  "closes q q' l =
     (doneLog q' = doneLog q @ l \<and> wait q' = wait q - int (length l) \<and>
      watchers q' = map (\<lambda>c. c\<lparr>sent := sent c @ succeeded l\<rparr>) (watchers q) \<and>
      same_frame q q' \<and> counts_grow q q' \<and> same_keys q q')"

lemma succeeded_simps [simp]:
  "succeeded [] = []"
  "succeeded (l1 @ l2) = succeeded l1 @ succeeded l2"
  "succeeded [(oid, Succeeded)] = [oid]"
  "succeeded [(oid, Skipped)] = []"
  "succeeded [(oid, FailedTerminal)] = []"
  by (simp_all add: succeeded_def)

lemma same_frame_refl [simp]: "same_frame q q"
  by (simp add: same_frame_def)

lemma counts_grow_refl [simp]: "counts_grow q q"
  by (simp add: counts_grow_def)

lemma same_keys_refl [simp]: "same_keys q q"
  by (simp add: same_keys_def)

lemma same_frame_trans: "same_frame q q1 \<Longrightarrow> same_frame q1 q2 \<Longrightarrow> same_frame q q2"
  by (simp add: same_frame_def)

lemma counts_grow_trans: "counts_grow q q1 \<Longrightarrow> counts_grow q1 q2 \<Longrightarrow> counts_grow q q2"
  unfolding counts_grow_def by (meson order_trans)

lemma same_keys_trans:
  assumes "same_keys q q1" "same_keys q1 q2"
  shows "same_keys q q2"
proof -
  have "\<And>k t'. transferables q2 k = Some t' \<Longrightarrow>
      \<exists>t. transferables q k = Some t \<and> t_Oid t' = t_Oid t \<and> t_Size t' = t_Size t"
  proof -
    fix k t' assume "transferables q2 k = Some t'"
    with assms(2) obtain t1 where "transferables q1 k = Some t1" "t_Oid t' = t_Oid t1"
      "t_Size t' = t_Size t1"
      unfolding same_keys_def by blast
    moreover with assms(1) obtain t where "transferables q k = Some t" "t_Oid t1 = t_Oid t"
      "t_Size t1 = t_Size t"
      unfolding same_keys_def by blast
    ultimately show "\<exists>t. transferables q k = Some t \<and> t_Oid t' = t_Oid t \<and> t_Size t' = t_Size t"
      by simp
  qed
  moreover have "\<And>k. (transferables q2 k = None) = (transferables q k = None)"
    using assms unfolding same_keys_def by simp
  ultimately show ?thesis unfolding same_keys_def by blast
qed

lemma closes_refl: "closes q q []"
  by (simp add: closes_def)

lemma closes_trans:
  assumes "closes q q1 l1" "closes q1 q2 l2"
  shows "closes q q2 (l1 @ l2)"
  using assms same_frame_trans [of q q1 q2] counts_grow_trans [of q q1 q2]
    same_keys_trans [of q q1 q2]
  by (simp add: closes_def o_def)

lemma same_keys_keyed:
  assumes "same_keys q q'" "keyed q"
  shows "keyed q'"
  unfolding keyed_def
proof (intro allI impI)
  fix k t' assume "transferables q' k = Some t'"
  with assms(1) obtain t where "transferables q k = Some t" "t_Oid t' = t_Oid t"
    unfolding same_keys_def by blast
  with assms(2) show "t_Oid t' = k" unfolding keyed_def by simp
qed

lemma closes_keyed: "closes q q' l \<Longrightarrow> keyed q \<Longrightarrow> keyed q'"
  unfolding closes_def by (blast intro: same_keys_keyed)

lemma closes_frame:
  assumes "closes q q' l"
  shows "doneLog q' = doneLog q @ l" "wait q' = wait q - int (length l)"
    "incoming q' = incoming q" "incomingClosed q' = incomingClosed q"
    "batchSize q' = batchSize q" "dryRun q' = dryRun q" "direction q' = direction q"
    "MaxRetries (rc q') = MaxRetries (rc q)" "requests q' = requests q" "rounds q' = rounds q"
    "transferKind q' = transferKind q"
    "(transferables q' k = None) = (transferables q k = None)"
    "CountFor (rc q) oid \<le> CountFor (rc q') oid"
    "watchers q' = map (\<lambda>c. c\<lparr>sent := sent c @ succeeded l\<rparr>) (watchers q)"
  using assms
  by (simp_all add: closes_def same_frame_def counts_grow_def same_keys_def transferKind_def)

lemma same_keys_SetObject:
  "transferables q k = Some t \<Longrightarrow> same_keys q (q\<lparr>transferables := (transferables q)(k \<mapsto> t\<lparr>t_Object := x\<rparr>)\<rparr>)"
  by (simp add: same_keys_def)

lemma same_keys_eq: "transferables q' = transferables q \<Longrightarrow> same_keys q q'"
  by (simp add: same_keys_def)

lemma counts_grow_eq: "rc q' = rc q \<Longrightarrow> counts_grow q q'"
  by (simp add: counts_grow_def)

subsection \<open>The steps of one round\<close>

definition oidT :: "Transfer \<Rightarrow> oid" where
  "oidT tr = o_Oid (tr_Object tr)"

lemma negotiated_closes:
  assumes "transferables q (o_Oid obj) \<noteq> None" "1 \<le> wait q"
  shows "\<exists>new q' l. negotiated obj (tt, q) = Inr (tt @ new, q') \<and> closes q q' l \<and>
     rc q' = rc q \<and> dispatched q' = dispatched q \<and> adapter q' = adapter q \<and>
     adapterInProgress q' = adapterInProgress q \<and>
     mset (map oidT new) + mset (map fst l) = {#o_Oid obj#}"
proof (cases "o_Error obj")
  case (Some e)
  then show ?thesis
    using assms(2)
    by (simp add: negotiated_def wait_Done_def Skip_def send_error_def closes_def
        same_frame_def same_keys_eq counts_grow_eq)
next
  case None
  show ?thesis
  proof (cases "snd (Rel obj (transferKind q))")
    case True
    from assms(1) obtain t where "transferables q (o_Oid obj) = Some t" by blast
    with None True show ?thesis
      by (simp add: negotiated_def SetObject_def Let_def closes_def NewTransfer_def oidT_def
          same_frame_def same_keys_def counts_grow_eq)
  next
    case False
    with None show ?thesis
      using assms(2)
      by (simp add: negotiated_def wait_Done_def Skip_def closes_def
          same_frame_def same_keys_eq counts_grow_eq)
  qed
qed

lemma negotiatedAll_closes:
  assumes "\<forall>obj \<in> set objs. transferables q (o_Oid obj) \<noteq> None" "int (length objs) \<le> wait q"
  shows "\<exists>new q' l. negotiatedAll objs (tt, q) = Inr (tt @ new, q') \<and> closes q q' l \<and>
     rc q' = rc q \<and> dispatched q' = dispatched q \<and> adapter q' = adapter q \<and>
     adapterInProgress q' = adapterInProgress q \<and>
     mset (map oidT new) + mset (map fst l) = mset (map o_Oid objs)"
  using assms
proof (induction objs arbitrary: tt q)
  case Nil
  show ?case using closes_refl [of q] by auto
next
  case (Cons obj objs)
  have "transferables q (o_Oid obj) \<noteq> None" "1 \<le> wait q" using Cons.prems by auto
  from negotiated_closes [OF this, of tt]
  obtain new1 q1 l1 where s: "negotiated obj (tt, q) = Inr (tt @ new1, q1)" "closes q q1 l1"
    "rc q1 = rc q" "dispatched q1 = dispatched q" "adapter q1 = adapter q"
    "adapterInProgress q1 = adapterInProgress q"
    "mset (map oidT new1) + mset (map fst l1) = {#o_Oid obj#}"
    by blast
  have "size (mset (map oidT new1) + mset (map fst l1)) = 1" using s(7) by simp
  then have len: "length l1 \<le> 1" by simp
  have p1: "\<forall>obj \<in> set objs. transferables q1 (o_Oid obj) \<noteq> None"
    using Cons.prems(1) closes_frame(12) [OF s(2)] by simp
  have p2: "int (length objs) \<le> wait q1"
    using Cons.prems(2) closes_frame(2) [OF s(2)] len by simp
  from Cons.IH [OF p1 p2, of "tt @ new1"]
  obtain new2 q2 l2 where r: "negotiatedAll objs (tt @ new1, q1) = Inr ((tt @ new1) @ new2, q2)"
    "closes q1 q2 l2" "rc q2 = rc q1" "dispatched q2 = dispatched q1" "adapter q2 = adapter q1"
    "adapterInProgress q2 = adapterInProgress q1"
    "mset (map oidT new2) + mset (map fst l2) = mset (map o_Oid objs)"
    by blast
  have acc: "mset (map oidT (new1 @ new2)) + mset (map fst (l1 @ l2)) = mset (map o_Oid (obj # objs))"
    using s(7) r(7) by (simp add: union_ac)
  show ?case
    apply (rule exI [of _ "new1 @ new2"], rule exI [of _ q2], rule exI [of _ "l1 @ l2"])
    using s r acc closes_trans [OF s(2) r(2)] by simp
qed

lemma hasBudget_rc: "rc q' = rc q \<Longrightarrow> hasBudget q' oid = hasBudget q oid"
  by (simp add: hasBudget_def)

lemma handleTransferResult_closes:
  assumes "keyed q" "transferables q (oidT (fst res)) \<noteq> None" "1 \<le> wait q"
  shows "\<exists>new q' l. handleTransferResult res (rs, q) = Inr (rs @ new, q') \<and> closes q q' l \<and>
     rc q' = rc q \<and>
     mset (map t_Oid new) + mset (map fst l) = {#oidT (fst res)#} \<and>
     (\<forall>t \<in> set new. hasBudget q (t_Oid t)) \<and> (snd res = None \<longrightarrow> new = [])"
proof (cases "snd res")
  case None
  then show ?thesis
    using assms(3)
    by (simp add: handleTransferResult_def Let_def wait_Done_def closes_def notify_def
        same_frame_def same_keys_eq counts_grow_eq oidT_def)
next
  case (Some err)
  from assms(2) obtain t where t: "transferables q (oidT (fst res)) = Some t" by blast
  with assms(1) have k: "t_Oid t = oidT (fst res)" by (simp add: keyed_def)
  show ?thesis
  proof (cases "canRetryObject q (oidT (fst res)) err")
    case True
    then have "hasBudget q (oidT (fst res))" by (simp add: canRetryObject_iff)
    with Some True t k show ?thesis
      using closes_refl [of q]
      by (simp add: handleTransferResult_def Let_def oidT_def)
  next
    case False
    with Some show ?thesis
      using assms(3)
      by (simp add: handleTransferResult_def Let_def wait_Done_def send_error_def closes_def
          same_frame_def same_keys_eq counts_grow_eq oidT_def)
  qed
qed

lemma handleResults_closes:
  assumes "keyed q" "\<forall>res \<in> set rs. transferables q (oidT (fst res)) \<noteq> None"
    and "int (length rs) \<le> wait q"
  shows "\<exists>new q' l. handleResults rs (acc, q) = Inr (acc @ new, q') \<and> closes q q' l \<and>
     rc q' = rc q \<and>
     mset (map t_Oid new) + mset (map fst l) = mset (map (\<lambda>res. oidT (fst res)) rs) \<and>
     (\<forall>t \<in> set new. hasBudget q (t_Oid t)) \<and> ((\<forall>res \<in> set rs. snd res = None) \<longrightarrow> new = [])"
  using assms
proof (induction rs arbitrary: acc q)
  case Nil
  show ?case using closes_refl [of q] by auto
next
  case (Cons res rs)
  have "transferables q (oidT (fst res)) \<noteq> None" "1 \<le> wait q" using Cons.prems by auto
  from handleTransferResult_closes [OF Cons.prems(1) this, of acc]
  obtain new1 q1 l1 where s: "handleTransferResult res (acc, q) = Inr (acc @ new1, q1)"
    "closes q q1 l1" "rc q1 = rc q"
    "mset (map t_Oid new1) + mset (map fst l1) = {#oidT (fst res)#}"
    "\<forall>t \<in> set new1. hasBudget q (t_Oid t)" "snd res = None \<longrightarrow> new1 = []"
    by (elim exE conjE)
  have "size (mset (map t_Oid new1) + mset (map fst l1)) = 1" using s(4) by simp
  then have len: "length l1 \<le> 1" by simp
  have p0: "keyed q1" using closes_keyed [OF s(2) Cons.prems(1)] .
  have p1: "\<forall>res \<in> set rs. transferables q1 (oidT (fst res)) \<noteq> None"
    using Cons.prems(2) closes_frame(12) [OF s(2)] by simp
  have p2: "int (length rs) \<le> wait q1"
    using Cons.prems(3) closes_frame(2) [OF s(2)] len by simp
  from Cons.IH [OF p0 p1 p2, of "acc @ new1"]
  obtain new2 q2 l2 where r: "handleResults rs (acc @ new1, q1) = Inr ((acc @ new1) @ new2, q2)"
    "closes q1 q2 l2" "rc q2 = rc q1"
    "mset (map t_Oid new2) + mset (map fst l2) = mset (map (\<lambda>res. oidT (fst res)) rs)"
    "\<forall>t \<in> set new2. hasBudget q1 (t_Oid t)" "(\<forall>res \<in> set rs. snd res = None) \<longrightarrow> new2 = []"
    by (elim exE conjE)
  have acc: "mset (map t_Oid (new1 @ new2)) + mset (map fst (l1 @ l2)) =
      mset (map (\<lambda>res. oidT (fst res)) (res # rs))"
    using s(4) r(4) by (simp add: union_ac)
  have hb: "\<forall>t \<in> set (new1 @ new2). hasBudget q (t_Oid t)"
    using s(5) r(5) hasBudget_rc [OF s(3)] by auto
  have nf: "(\<forall>res \<in> set (res # rs). snd res = None) \<longrightarrow> new1 @ new2 = []"
    using s(6) r(6) by simp
  show ?case
    apply (rule exI [of _ "new1 @ new2"], rule exI [of _ q2], rule exI [of _ "l1 @ l2"])
    using s(1,3) r(1,3) acc hb nf closes_trans [OF s(2) r(2)] by simp
qed

lemma skipPending_closes:
  assumes "int (length ts) \<le> wait q"
  shows "\<exists>q' l. skipPending ts q = Inr q' \<and> closes q q' l \<and> rc q' = rc q \<and>
     map fst l = map oidT ts"
  using assms
proof (induction ts arbitrary: q)
  case Nil
  show ?case using closes_refl [of q] by auto
next
  case (Cons t ts)
  let ?q1 = "(Skip (o_Size (tr_Object t)) q)\<lparr>wait := wait q - 1,
      doneLog := doneLog q @ [(oidT t, FailedTerminal)]\<rparr>"
  have s: "wait_Done (o_Oid (tr_Object t)) FailedTerminal (Skip (o_Size (tr_Object t)) q) = Inr ?q1"
    using Cons.prems by (simp add: wait_Done_def Skip_def oidT_def)
  have c1: "closes q ?q1 [(oidT t, FailedTerminal)]"
    by (simp add: closes_def Skip_def same_frame_def same_keys_eq counts_grow_eq)
  have "int (length ts) \<le> wait ?q1" using Cons.prems by simp
  from Cons.IH [OF this]
  obtain q2 l2 where r: "skipPending ts ?q1 = Inr q2" "closes ?q1 q2 l2" "rc q2 = rc ?q1"
    "map fst l2 = map oidT ts"
    by blast
  show ?case
    apply (rule exI [of _ q2], rule exI [of _ "(oidT t, FailedTerminal) # l2"])
    using s r closes_trans [OF c1 r(2)] by (simp add: Skip_def)
qed

lemma addToAdapter_closes:
  assumes "adapter_contract w" "keyed q" "\<forall>tr \<in> set pending. transferables q (oidT tr) \<noteq> None"
    and "int (length pending) \<le> wait q"
  shows "\<exists>retries q' l. addToAdapter w pending q = Inr (retries, q') \<and> closes q q' l \<and>
     rc q' = rc q \<and>
     mset (map t_Oid retries) + mset (map fst l) = mset (map oidT pending) \<and>
     (\<forall>t \<in> set retries. hasBudget q (t_Oid t)) \<and>
     ((\<forall>res \<in> set (adapterAdd w (rounds q) pending). snd res = None) \<longrightarrow> retries = [])"
proof (cases "ensureAdapterBegun w q")
  case (Pair e q1)
  then have q1: "q1 = q \<or> q1 = q\<lparr>adapterInProgress := True\<rparr>"
    by (auto simp: ensureAdapterBegun_def split: if_splits option.splits)
  then have c1: "closes q q1 []"
    by (auto simp: closes_def same_frame_def same_keys_eq counts_grow_eq)
  have f1: "rc q1 = rc q" "wait q1 = wait q" "rounds q1 = rounds q" "dryRun q1 = dryRun q"
    "transferables q1 = transferables q"
    using q1 by auto
  show ?thesis
  proof (cases e)
    case (Some err)
    let ?q2 = "send_error err q1"
    have c2: "closes q ?q2 []"
      using c1 by (simp add: closes_def send_error_def same_frame_def same_keys_def counts_grow_def)
    have "int (length pending) \<le> wait ?q2" using assms(4) f1 by (simp add: send_error_def)
    from skipPending_closes [OF this]
    obtain q3 l where r: "skipPending pending ?q2 = Inr q3" "closes ?q2 q3 l" "rc q3 = rc ?q2"
      "map fst l = map oidT pending"
      by blast
    have "rc q3 = rc q" using r(3) f1 by (simp add: send_error_def)
    moreover have "closes q q3 l" using closes_trans [OF c2 r(2)] by simp
    moreover have "addToAdapter w pending q = Inr ([], q3)"
      using Pair Some r(1) by (simp add: addToAdapter_def)
    ultimately show ?thesis
      using r(4) by (intro exI [of _ "[]"] exI [of _ q3] exI [of _ l]) simp
  next
    case None
    define rs where "rs = (if dryRun q1 then makeDryRunResults pending
        else adapterAdd w (rounds q1) pending)"
    define q2 where "q2 = (if dryRun q1 then q1 else q1\<lparr>dispatched := dispatched q1 @ pending\<rparr>)"
    have a: "addToAdapter w pending q = handleResults rs ([], q2)"
      using Pair None by (simp add: addToAdapter_def rs_def q2_def)
    have "map fst (makeDryRunResults pending) = pending"
      by (simp add: makeDryRunResults_def o_def)
    then have ms: "mset (map fst rs) = mset pending"
      using assms(1) unfolding rs_def adapter_contract_def by presburger
    then have st: "fst ` set rs = set pending" by (metis set_map set_mset_mset)
    have ln: "length rs = length pending" using ms by (metis length_map size_mset)
    have mo: "mset (map (\<lambda>res. oidT (fst res)) rs) = mset (map oidT pending)"
    proof -
      have "mset (map (\<lambda>res. oidT (fst res)) rs) = image_mset oidT (mset (map fst rs))"
        by (simp add: image_mset.compositionality o_def)
      then show ?thesis using ms by simp
    qed
    have c2: "closes q q2 []"
      using c1 by (simp add: q2_def closes_def same_frame_def same_keys_def counts_grow_def)
    have f2: "rc q2 = rc q" "wait q2 = wait q" "transferables q2 = transferables q"
      using f1 by (simp_all add: q2_def)
    have k2: "keyed q2" using closes_keyed [OF c2 assms(2)] .
    have d2: "\<forall>res \<in> set rs. transferables q2 (oidT (fst res)) \<noteq> None"
      using st assms(3) f2(3) by auto
    have w2: "int (length rs) \<le> wait q2" using ln assms(4) f2(2) by simp
    from handleResults_closes [OF k2 d2 w2, of "[]"]
    obtain new q3 l where r: "handleResults rs ([], q2) = Inr ([] @ new, q3)" "closes q2 q3 l"
      "rc q3 = rc q2"
      "mset (map t_Oid new) + mset (map fst l) = mset (map (\<lambda>res. oidT (fst res)) rs)"
      "\<forall>t \<in> set new. hasBudget q2 (t_Oid t)" "(\<forall>res \<in> set rs. snd res = None) \<longrightarrow> new = []"
      by (elim exE conjE)
    have nf: "(\<forall>res \<in> set (adapterAdd w (rounds q) pending). snd res = None) \<longrightarrow> new = []"
      using r(6) f1(3) by (auto simp: rs_def makeDryRunResults_def)
    have hb: "\<forall>t \<in> set new. hasBudget q (t_Oid t)"
      using r(5) hasBudget_rc [OF f2(1)] by simp
    have cl: "closes q q3 l" using closes_trans [OF c2 r(2)] by simp
    show ?thesis
      using a r(1,3,4) f2(1) mo nf hb cl
      by (intro exI [of _ new] exI [of _ q3] exI [of _ l]) simp
  qed
qed

lemma enqueueRetries_eq:
  "enqueueRetries rs (next, q) =
     (next @ rs, q\<lparr>rc := fold (\<lambda>t r. Increment r (t_Oid t)) rs (rc q)\<rparr>)"
  by (induction rs arbitrary: "next" q) simp_all

lemma MaxRetries_fold_Increment [simp]:
  "MaxRetries (fold (\<lambda>t r. Increment r (t_Oid t)) ts r) = MaxRetries r"
  by (induction ts arbitrary: r) simp_all

lemma CountFor_fold_mono:
  "CountFor r a \<le> CountFor (fold (\<lambda>t r. Increment r (t_Oid t)) ts r) a"
proof (induction ts arbitrary: r)
  case Nil
  show ?case by simp
next
  case (Cons t ts)
  have "CountFor r a \<le> CountFor (Increment r (t_Oid t)) a" by (simp add: CountFor_Increment)
  also have "\<dots> \<le> CountFor (fold (\<lambda>t r. Increment r (t_Oid t)) ts (Increment r (t_Oid t))) a"
    by (rule Cons.IH)
  finally show ?case by simp
qed

lemma CountFor_fold_member:
  "a \<in> t_Oid ` set ts \<Longrightarrow>
   CountFor r a + 1 \<le> CountFor (fold (\<lambda>t r. Increment r (t_Oid t)) ts r) a"
proof (induction ts arbitrary: r)
  case Nil
  then show ?case by simp
next
  case (Cons t ts)
  show ?case
  proof (cases "a = t_Oid t")
    case True
    have "CountFor r a + 1 = CountFor (Increment r (t_Oid t)) a"
      using True by (simp add: CountFor_Increment)
    also have "\<dots> \<le> CountFor (fold (\<lambda>t r. Increment r (t_Oid t)) ts (Increment r (t_Oid t))) a"
      by (rule CountFor_fold_mono)
    finally show ?thesis by simp
  next
    case False
    with Cons.prems have "a \<in> t_Oid ` set ts" by auto
    from Cons.IH [OF this, of "Increment r (t_Oid t)"] False
    show ?thesis by (simp add: CountFor_Increment)
  qed
qed

definition quiet :: "world \<Rightarrow> bool" where
  "quiet w =
     ((\<forall>k reqs. \<exists>r. endpoint w k reqs = Inr r) \<and>
      (\<forall>k ts. \<forall>res \<in> set (adapterAdd w k ts). snd res = None))"

definition round_post ::
  "Batch \<Rightarrow> TransferQueue \<Rightarrow> Batch \<Rightarrow> TransferQueue \<Rightarrow> (oid \<times> outcome) list \<Rightarrow> bool" where
  "round_post batch q next q' l =
     (closes (q\<lparr>requests := requests q @ (if batch = [] then [] else [ApiObjects batch]),
               rounds := Suc (rounds q)\<rparr>) q' l \<and>
      mset (map t_Oid next) + mset (map fst l) = mset (map t_Oid batch) \<and>
      (\<forall>t \<in> set next. hasBudget q (t_Oid t) \<and>
         CountFor (rc q) (t_Oid t) + 1 \<le> CountFor (rc q') (t_Oid t)))"

lemma succeeded_failed [simp]: "succeeded (map (\<lambda>t. (f t, FailedTerminal)) ts) = []"
  by (induction ts) (simp_all add: succeeded_def)

lemma mset_map_partition:
  "mset (map f (filter P xs)) + mset (map f (filter (\<lambda>x. \<not> P x) xs)) = mset (map f xs)"
  by (induction xs) simp_all

lemma round_error:
  assumes "endpoint w (rounds q) (ApiObjects batch) = Inl err" "batch \<noteq> []"
    and "distinct (map t_Oid batch)" "int (length batch) \<le> wait q" "0 \<le> batchSize q"
  shows "\<exists>next e q' l. enqueueAndCollectRetriesFor w batch q = Inr (next, e, q') \<and>
     round_post batch q next q' l"
proof -
  let ?q = "q\<lparr>requests := requests q @ [ApiObjects batch]\<rparr>"
  have b: "Batch w q (ApiObjects batch) = (Inl err, ?q)"
    using assms(1,2) by (simp add: Batch_def ApiObjects_def)
  have mb: "makeBatch q = Inr []" using assms(5) by (simp add: makeBatch_def)
  have hb: "\<And>oid. hasBudget ?q oid = hasBudget q oid" by (simp add: hasBudget_def)
  show ?thesis
  proof (cases "IsRetriableError err")
    case True
    let ?yes = "filter (\<lambda>t. hasBudget q (t_Oid t)) batch"
    let ?no = "filter (\<lambda>t. \<not> hasBudget q (t_Oid t)) batch"
    let ?l = "map (\<lambda>t. (t_Oid t, FailedTerminal)) ?no"
    let ?q' = "?q\<lparr>rc := fold (\<lambda>t r. Increment r (t_Oid t)) ?yes (rc q),
        wait := wait q - int (length ?no), doneLog := doneLog q @ ?l, rounds := Suc (rounds q)\<rparr>"
    have "int (length (filter (\<lambda>t. \<not> hasBudget ?q (t_Oid t)) batch)) \<le> wait ?q"
      using assms(4) length_filter_le_wait by simp
    from retryOrFailAll_retriable [OF True assms(3) this, of "[]"] b mb
    have e: "enqueueAndCollectRetriesFor w batch q = Inr (?yes, Some err, ?q')"
      by (simp add: enqueueAndCollectRetriesFor_def hb)
    have c: "closes (q\<lparr>requests := requests q @ [ApiObjects batch], rounds := Suc (rounds q)\<rparr>) ?q' ?l"
      by (simp add: closes_def same_frame_def same_keys_eq counts_grow_def CountFor_fold_mono)
    have a: "mset (map t_Oid ?yes) + mset (map fst ?l) = mset (map t_Oid batch)"
      using mset_map_partition [of t_Oid "\<lambda>t. hasBudget q (t_Oid t)" batch] by (simp add: o_def)
    have g: "\<forall>t \<in> set ?yes. hasBudget q (t_Oid t) \<and>
         CountFor (rc q) (t_Oid t) + 1 \<le> CountFor (rc ?q') (t_Oid t)"
    proof (intro ballI conjI)
      fix t assume t: "t \<in> set ?yes"
      then show "hasBudget q (t_Oid t)" by simp
      from t have "t_Oid t \<in> t_Oid ` set ?yes" by (rule imageI)
      from CountFor_fold_member [OF this, of "rc q"]
      show "CountFor (rc q) (t_Oid t) + 1 \<le> CountFor (rc ?q') (t_Oid t)" by simp
    qed
    have c': "closes (q\<lparr>requests := requests q @ (if batch = [] then [] else [ApiObjects batch]),
               rounds := Suc (rounds q)\<rparr>) ?q' ?l"
      using c assms(2) by (simp only: if_False)
    have rp: "round_post batch q ?yes ?q' ?l"
      unfolding round_post_def by (intro conjI c' a g)
    from e rp show ?thesis by blast
  next
    case False
    let ?l = "map (\<lambda>t. (t_Oid t, FailedTerminal)) batch"
    let ?q' = "?q\<lparr>wait := wait q - int (length batch), doneLog := doneLog q @ ?l,
        rounds := Suc (rounds q)\<rparr>"
    have "int (length batch) \<le> wait ?q" using assms(4) by simp
    from retryOrFailAll_terminal [OF False this, of "[]"] b mb
    have e: "enqueueAndCollectRetriesFor w batch q = Inr ([], Some err, ?q')"
      by (simp add: enqueueAndCollectRetriesFor_def)
    have c: "closes (q\<lparr>requests := requests q @ [ApiObjects batch], rounds := Suc (rounds q)\<rparr>) ?q' ?l"
      by (simp add: closes_def same_frame_def same_keys_eq counts_grow_def)
    have c': "closes (q\<lparr>requests := requests q @ (if batch = [] then [] else [ApiObjects batch]),
               rounds := Suc (rounds q)\<rparr>) ?q' ?l"
      using c assms(2) by (simp only: if_False)
    have a: "mset (map t_Oid []) + mset (map fst ?l) = mset (map t_Oid batch)"
      by (simp add: o_def)
    have g: "\<forall>t \<in> set []. hasBudget q (t_Oid t) \<and>
         CountFor (rc q) (t_Oid t) + 1 \<le> CountFor (rc ?q') (t_Oid t)"
      by simp
    have rp: "round_post batch q [] ?q' ?l"
      unfolding round_post_def by (intro conjI c' a g)
    from e rp show ?thesis by blast
  qed
qed

lemma closes_adapter_setup: "closes q (startProgress (useAdapter w name q)) []"
  by (simp add: closes_def same_frame_def same_keys_eq counts_grow_eq)

lemma closes_bump:
  assumes "closes a b l"
  shows "closes (a\<lparr>rounds := n\<rparr>)
           (b\<lparr>rc := fold (\<lambda>t r. Increment r (t_Oid t)) ts (rc b), rounds := n\<rparr>) l"
proof -
  have "\<And>oid. CountFor (rc a) oid \<le> CountFor (fold (\<lambda>t r. Increment r (t_Oid t)) ts (rc b)) oid"
  proof -
    fix oid
    have "CountFor (rc a) oid \<le> CountFor (rc b) oid" using assms by (rule closes_frame(13))
    also have "\<dots> \<le> CountFor (fold (\<lambda>t r. Increment r (t_Oid t)) ts (rc b)) oid"
      by (rule CountFor_fold_mono)
    finally show "CountFor (rc a) oid \<le> CountFor (fold (\<lambda>t r. Increment r (t_Oid t)) ts (rc b)) oid" .
  qed
  then show ?thesis
    using assms by (simp add: closes_def same_frame_def same_keys_def counts_grow_def)
qed

lemma Batch_result:
  "Batch w q (ApiObjects batch) =
     (if batch = [] then Inr ([], []) else endpoint w (rounds q) (ApiObjects batch),
      q\<lparr>requests := requests q @ (if batch = [] then [] else [ApiObjects batch])\<rparr>)"
  by (simp add: Batch_def ApiObjects_def)

lemma round_ok:
  assumes "api_contract w" "adapter_contract w" "keyed q"
    and "\<forall>t \<in> set batch. transferables q (t_Oid t) \<noteq> None"
    and "int (length batch) \<le> wait q" "0 \<le> batchSize q"
    and "(if batch = [] then Inr ([], []) else endpoint w (rounds q) (ApiObjects batch)) = Inr (objs, name)"
  shows "\<exists>next e q' l. enqueueAndCollectRetriesFor w batch q = Inr (next, e, q') \<and>
     round_post batch q next q' l \<and> (quiet w \<longrightarrow> next = [])"
proof -
  let ?R = "requests q @ (if batch = [] then [] else [ApiObjects batch])"
  let ?qb = "q\<lparr>requests := ?R\<rparr>"
  let ?q3 = "startProgress (useAdapter w name ?qb)"
  have b: "Batch w q (ApiObjects batch) = (Inr (objs, name), ?qb)"
    using assms(7) by (simp only: Batch_result)
  have mb: "makeBatch q = Inr []" using assms(6) by (simp add: makeBatch_def)
  have mo: "mset (map o_Oid objs) = mset (map t_Oid batch)"
  proof (cases "batch = []")
    case True
    with assms(7) show ?thesis by simp
  next
    case False
    with assms(7) have "endpoint w (rounds q) (ApiObjects batch) = Inr (objs, name)" by simp
    with assms(1) have "mset (map o_Oid objs) = mset (map fst (ApiObjects batch))"
      unfolding api_contract_def by blast
    then show ?thesis by (simp add: ApiObjects_def o_def)
  qed
  have so: "o_Oid ` set objs = t_Oid ` set batch"
    using mo by (metis set_map set_mset_mset)
  have lo: "length objs = length batch" using mo by (metis length_map size_mset)
  have c3: "closes ?qb ?q3 []" by (rule closes_adapter_setup)
  have kb: "keyed ?qb" using assms(3) by (simp add: keyed_def)
  have k3: "keyed ?q3" using closes_keyed [OF c3 kb] .
  have dq: "\<And>x. x \<in> o_Oid ` set objs \<Longrightarrow> transferables q x \<noteq> None"
  proof -
    fix x assume "x \<in> o_Oid ` set objs"
    then have "x \<in> t_Oid ` set batch" using so by simp
    then obtain t where "t \<in> set batch" "x = t_Oid t" by blast
    with assms(4) show "transferables q x \<noteq> None" by simp
  qed
  have d3: "\<forall>obj \<in> set objs. transferables ?q3 (o_Oid obj) \<noteq> None"
    using dq by simp
  have w3: "int (length objs) \<le> wait ?q3" using lo assms(5) by simp
  from negotiatedAll_closes [OF d3 w3, of "[]"]
  obtain tt q4 l1 where n: "negotiatedAll objs ([], ?q3) = Inr ([] @ tt, q4)" "closes ?q3 q4 l1"
    "rc q4 = rc ?q3" "mset (map oidT tt) + mset (map fst l1) = mset (map o_Oid objs)"
    by (elim exE conjE)
  have k4: "keyed q4" using closes_keyed [OF n(2) k3] .
  have "set (map oidT tt) \<subseteq> o_Oid ` set objs"
    using n(4) by (metis mset_subset_eq_add_left set_map set_mset_mono set_mset_mset)
  then have "\<And>tr. tr \<in> set tt \<Longrightarrow> oidT tr \<in> o_Oid ` set objs" by auto
  then have d4: "\<forall>tr \<in> set tt. transferables q4 (oidT tr) \<noteq> None"
    using dq closes_frame(12) [OF n(2)] by simp
  have "size (mset (map oidT tt) + mset (map fst l1)) = size (mset (map o_Oid objs))"
    using n(4) by simp
  then have l4: "length tt + length l1 = length objs" by simp
  have w4: "int (length tt) \<le> wait q4"
    using closes_frame(2) [OF n(2)] w3 l4 by simp
  from addToAdapter_closes [OF assms(2) k4 d4 w4]
  obtain retries q5 l2 where a: "addToAdapter w tt q4 = Inr (retries, q5)" "closes q4 q5 l2"
    "rc q5 = rc q4" "mset (map t_Oid retries) + mset (map fst l2) = mset (map oidT tt)"
    "\<forall>t \<in> set retries. hasBudget q4 (t_Oid t)"
    "(\<forall>res \<in> set (adapterAdd w (rounds q4) tt). snd res = None) \<longrightarrow> retries = []"
    by (elim exE conjE)
  let ?q6 = "q5\<lparr>rc := fold (\<lambda>t r. Increment r (t_Oid t)) retries (rc q5), rounds := Suc (rounds q)\<rparr>"
  have c5: "closes ?qb q5 (l1 @ l2)"
    using closes_trans [OF closes_trans [OF c3 n(2)] a(2)] by simp
  have r5: "rounds q5 = rounds q" using closes_frame(10) [OF c5] by simp
  have e: "enqueueAndCollectRetriesFor w batch q = Inr (retries, None, ?q6)"
    using b mb n(1) a(1) r5 by (simp add: enqueueAndCollectRetriesFor_def enqueueRetries_eq)
  have c6: "closes (q\<lparr>requests := ?R, rounds := Suc (rounds q)\<rparr>) ?q6 (l1 @ l2)"
    using closes_bump [OF c5, of "Suc (rounds q)" retries] by simp
  have ac: "mset (map t_Oid retries) + mset (map fst (l1 @ l2)) = mset (map t_Oid batch)"
    using a(4) n(4) mo by (simp add: union_ac)
  have rq: "rc q5 = rc q" using a(3) n(3) by simp
  have g: "\<forall>t \<in> set retries. hasBudget q (t_Oid t) \<and>
         CountFor (rc q) (t_Oid t) + 1 \<le> CountFor (rc ?q6) (t_Oid t)"
  proof (intro ballI conjI)
    fix t assume t: "t \<in> set retries"
    have "rc q4 = rc q" using n(3) by simp
    from t a(5) hasBudget_rc [OF this] show "hasBudget q (t_Oid t)" by simp
    from t have "t_Oid t \<in> t_Oid ` set retries" by (rule imageI)
    from CountFor_fold_member [OF this, of "rc q5"] rq
    show "CountFor (rc q) (t_Oid t) + 1 \<le> CountFor (rc ?q6) (t_Oid t)" by simp
  qed
  have rp: "round_post batch q retries ?q6 (l1 @ l2)"
    unfolding round_post_def by (intro conjI c6 ac g)
  have qu: "quiet w \<longrightarrow> retries = []"
    using a(6) unfolding quiet_def by blast
  from e rp qu show ?thesis by blast
qed

lemma round_closes:
  assumes "well_behaved w" "keyed q"
    and "\<forall>t \<in> set batch. transferables q (t_Oid t) \<noteq> None"
    and "distinct (map t_Oid batch)" "int (length batch) \<le> wait q" "0 \<le> batchSize q"
  shows "\<exists>next e q' l. enqueueAndCollectRetriesFor w batch q = Inr (next, e, q') \<and>
     round_post batch q next q' l \<and> (quiet w \<longrightarrow> next = [])"
proof (cases "if batch = [] then Inr ([], []) else endpoint w (rounds q) (ApiObjects batch)")
  case (Inl err)
  then have ne: "batch \<noteq> []" and ep: "endpoint w (rounds q) (ApiObjects batch) = Inl err"
    by (auto split: if_splits)
  have "\<not> quiet w" using ep unfolding quiet_def by (metis sum.distinct(1))
  with round_error [OF ep ne assms(4,5,6)] show ?thesis by blast
next
  case (Inr r)
  obtain objs name where "r = (objs, name)" by (cases r)
  with Inr assms show ?thesis
    by (intro round_ok) (simp_all add: well_behaved_def)
qed

subsection \<open>Filling a batch\<close>

lemma fill_result:
  assumes "1 \<le> m" "closing \<longrightarrow> inc = []"
  shows "\<exists>closing' batch' rest. fill True m closing batch inc = Some (closing', batch', rest) \<and>
     batch @ inc = batch' @ rest \<and> (closing' \<longrightarrow> rest = []) \<and> (closing \<longrightarrow> closing') \<and>
     (\<not> closing' \<longrightarrow> IsFull batch' m) \<and>
     (int (length batch) \<le> m \<longrightarrow> int (length batch') \<le> m)"
  using assms
proof (induction inc arbitrary: batch)
  case Nil
  then show ?case by (auto simp: IsFull_def)
next
  case (Cons t ts)
  then have nc: "\<not> closing" by simp
  show ?case
  proof (cases "IsFull batch m")
    case True
    with nc show ?thesis by auto
  next
    case False
    have "closing \<longrightarrow> ts = []" using nc by simp
    from Cons.IH [OF Cons.prems(1) this, of "batch @ [t]"]
    obtain closing' batch' rest where
      f: "fill True m closing (batch @ [t]) ts = Some (closing', batch', rest)"
      "(batch @ [t]) @ ts = batch' @ rest" "closing' \<longrightarrow> rest = []" "closing \<longrightarrow> closing'"
      "\<not> closing' \<longrightarrow> IsFull batch' m"
      "int (length (batch @ [t])) \<le> m \<longrightarrow> int (length batch') \<le> m"
      by (elim exE conjE)
    have "int (length (batch @ [t])) \<le> m" using False by (simp add: IsFull_def)
    with f(6) have "int (length batch') \<le> m" by simp
    with f(1-5) nc False show ?thesis by auto
  qed
qed

subsection \<open>The retry budget that is left\<close>

definition left :: "TransferQueue \<Rightarrow> oid \<Rightarrow> nat" where
  "left q oid = nat (MaxRetries (rc q) - CountFor (rc q) oid) + 1"

definition pot :: "TransferQueue \<Rightarrow> oid list \<Rightarrow> nat" where
  "pot q oids = sum_list (map (left q) oids)"

lemma pot_simps [simp]:
  "pot q [] = 0" "pot q (x # xs) = left q x + pot q xs" "pot q (xs @ ys) = pot q xs + pot q ys"
  by (simp_all add: pot_def)

lemma pot_mset: "mset xs = mset ys \<Longrightarrow> pot q xs = pot q ys"
proof -
  assume "mset xs = mset ys"
  then have "sum_mset (image_mset (left q) (mset xs)) = sum_mset (image_mset (left q) (mset ys))"
    by simp
  then show ?thesis
    unfolding pot_def by (metis mset_map sum_mset_sum_list)
qed

lemma pot_ge_length: "length xs \<le> pot q xs"
  by (induction xs) (simp_all add: left_def)

lemma left_mono:
  assumes "MaxRetries (rc q') = MaxRetries (rc q)" "CountFor (rc q) oid \<le> CountFor (rc q') oid"
  shows "left q' oid \<le> left q oid"
  using assms by (simp add: left_def)

lemma pot_mono:
  assumes "MaxRetries (rc q') = MaxRetries (rc q)" "\<And>oid. CountFor (rc q) oid \<le> CountFor (rc q') oid"
  shows "pot q' xs \<le> pot q xs"
proof (induction xs)
  case Nil
  show ?case by simp
next
  case (Cons x xs)
  have "left q' x \<le> left q x" using assms(1) assms(2) [of x] by (rule left_mono)
  with Cons show ?case by simp
qed

lemma pot_retried:
  assumes "MaxRetries (rc q') = MaxRetries (rc q)"
    and "\<forall>t \<in> set ts. hasBudget q (t_Oid t) \<and>
           CountFor (rc q) (t_Oid t) + 1 \<le> CountFor (rc q') (t_Oid t)"
  shows "pot q' (map t_Oid ts) + length ts \<le> pot q (map t_Oid ts)"
  using assms(2)
proof (induction ts)
  case Nil
  show ?case by simp
next
  case (Cons t ts)
  have "hasBudget q (t_Oid t)" "CountFor (rc q) (t_Oid t) + 1 \<le> CountFor (rc q') (t_Oid t)"
    using Cons.prems by simp_all
  then have "left q' (t_Oid t) + 1 \<le> left q (t_Oid t)"
    using assms(1) by (simp add: left_def hasBudget_def)
  moreover have "pot q' (map t_Oid ts) + length ts \<le> pot q (map t_Oid ts)"
    using Cons by simp
  ultimately show ?case by simp
qed

lemma distinct_sub_mset:
  assumes "mset xs \<subseteq># mset us" "distinct us"
  shows "distinct xs"
proof -
  have "\<And>a. Multiset.count (mset xs) a \<le> 1"
  proof -
    fix a
    have "Multiset.count (mset xs) a \<le> Multiset.count (mset us) a"
      using assms(1) by (rule mset_subset_eq_count)
    also have "\<dots> \<le> 1" using assms(2) by (simp add: distinct_count_atmost_1)
    finally show "Multiset.count (mset xs) a \<le> 1" .
  qed
  then show ?thesis
  proof (induction xs)
    case Nil
    show ?case by simp
  next
    case (Cons x xs)
    have "Multiset.count (mset (x # xs)) x \<le> 1" by (rule Cons.prems)
    then have "Multiset.count (mset xs) x = 0" by simp
    then have nx: "x \<notin> set xs" by (simp add: count_eq_zero_iff)
    have "\<And>a. Multiset.count (mset xs) a \<le> 1"
    proof -
      fix a
      have "Multiset.count (mset xs) a \<le> Multiset.count (mset (x # xs)) a" by simp
      also have "\<dots> \<le> 1" by (rule Cons.prems)
      finally show "Multiset.count (mset xs) a \<le> 1" .
    qed
    then have "distinct xs" by (rule Cons.IH)
    with nx show ?case by simp
  qed
qed

subsection \<open>The invariant of the batching loop\<close>

definition desc :: "(oid \<times> int) list \<Rightarrow> bool" where
  "desc r = sorted_wrt (\<lambda>a b. snd b \<le> snd a) r"

definition loop_inv :: "oid list \<Rightarrow> bool \<Rightarrow> Batch \<Rightarrow> TransferQueue \<Rightarrow> bool" where
  "loop_inv us closing batch q =
     (mset (map t_Oid batch) + mset (map t_Oid (incoming q)) + mset (map fst (doneLog q)) = mset us \<and>
      wait q = int (length batch) + int (length (incoming q)) \<and>
      (\<forall>oid \<in> set us. transferables q oid \<noteq> None) \<and> keyed q \<and>
      (closing \<longrightarrow> incoming q = []) \<and> incomingClosed q \<and> 1 \<le> batchSize q \<and>
      int (length batch) \<le> batchSize q \<and>
      (\<forall>r \<in> set (requests q). desc r \<and> int (length r) \<le> batchSize q) \<and>
      (\<forall>c \<in> set (watchers q). sent c = succeeded (doneLog q) \<and> \<not> closed c))"

definition mu :: "bool \<Rightarrow> Batch \<Rightarrow> TransferQueue \<Rightarrow> nat" where
  "mu closing batch q =
     pot q (map t_Oid batch) + pot q (map t_Oid (incoming q)) + (if closing then 0 else 1)"

lemma closes_send_error_opt:
  assumes "closes a b l"
  shows "closes a (case e of Some x \<Rightarrow> send_error x b | None \<Rightarrow> b) l"
  using assms
  by (cases e) (simp_all add: closes_def send_error_def same_frame_def same_keys_def counts_grow_def)

lemma desc_sorted_batch:
  assumes "sorted_wrt (\<lambda>a b. \<not> Reverse Less b a) sb"
  shows "desc (ApiObjects sb)"
proof -
  have "(\<lambda>a b. \<not> Reverse Less b a) = (\<lambda>a b. t_Size b \<le> t_Size a)"
    by (simp add: Reverse_def Less_def not_less fun_eq_iff)
  with assms have "sorted_wrt (\<lambda>a b. t_Size b \<le> t_Size a) sb" by simp
  then show ?thesis by (simp add: desc_def ApiObjects_def sorted_wrt_map)
qed

lemma iteration_step:
  assumes "well_behaved w" "distinct us" "loop_inv us closing batch q"
  shows "\<exists>closing' batch' rest next q'.
     fill True (batchSize q) closing batch (incoming q) = Some (closing', batch', rest) \<and>
     iteration w closing batch q = Some (Inr (closing', next, q')) \<and>
     loop_inv us closing' next q' \<and> incoming q' = rest \<and> batchSize q' = batchSize q \<and>
     requests q' = requests q @
        (if batch' = [] then [] else [ApiObjects (goSort w (Reverse Less) batch')]) \<and>
     (quiet w \<longrightarrow> next = []) \<and> length (watchers q') = length (watchers q) \<and>
     (\<not> (closing' \<and> next = []) \<longrightarrow> mu closing' next q' < mu closing batch q)"
proof -
  from assms(3) have
    iA: "mset (map t_Oid batch) + mset (map t_Oid (incoming q)) + mset (map fst (doneLog q)) = mset us"
    and iB: "wait q = int (length batch) + int (length (incoming q))"
    and iC: "\<forall>oid \<in> set us. transferables q oid \<noteq> None"
    and iK: "keyed q" and iE: "closing \<longrightarrow> incoming q = []" and iI: "incomingClosed q"
    and iS: "1 \<le> batchSize q" and iL: "int (length batch) \<le> batchSize q"
    and iR: "\<forall>r \<in> set (requests q). desc r \<and> int (length r) \<le> batchSize q"
    and iW: "\<forall>c \<in> set (watchers q). sent c = succeeded (doneLog q) \<and> \<not> closed c"
    unfolding loop_inv_def by simp_all
  from fill_result [OF iS iE, of batch]
  obtain closing' batch' rest where
    f: "fill True (batchSize q) closing batch (incoming q) = Some (closing', batch', rest)"
    and fa: "batch @ incoming q = batch' @ rest" and fc: "closing' \<longrightarrow> rest = []"
    and fm: "closing \<longrightarrow> closing'" and ff: "\<not> closing' \<longrightarrow> IsFull batch' (batchSize q)"
    and fl: "int (length batch) \<le> batchSize q \<longrightarrow> int (length batch') \<le> batchSize q"
    by (elim exE conjE)
  let ?sb = "goSort w (Reverse Less) batch'"
  let ?q1 = "q\<lparr>incoming := rest\<rparr>"
  from assms(1) have ms: "mset ?sb = mset batch'"
    and srt: "sorted_wrt (\<lambda>a b. \<not> Reverse Less b a) ?sb"
    unfolding well_behaved_def sort_contract_def by blast+
  have lsb: "length ?sb = length batch'" using ms by (metis size_mset)
  have ssb: "set ?sb = set batch'" using ms by (metis set_mset_mset)
  have mo: "mset (map t_Oid ?sb) = mset (map t_Oid batch')"
    using ms by (metis mset_map)
  have "map t_Oid (batch @ incoming q) = map t_Oid (batch' @ rest)" using fa by simp
  then have e1: "mset (map t_Oid batch) + mset (map t_Oid (incoming q)) =
      mset (map t_Oid batch') + mset (map t_Oid rest)"
    by (metis map_append mset_append)
  have "length (batch @ incoming q) = length (batch' @ rest)" using fa by simp
  then have e2: "length batch + length (incoming q) = length batch' + length rest" by simp
  have sub: "mset (map t_Oid batch') \<subseteq># mset us"
    using iA e1 by (metis mset_subset_eq_add_left union_assoc)
  have k1: "keyed ?q1" using iK by (simp add: keyed_def)
  have d1: "\<forall>t \<in> set ?sb. transferables ?q1 (t_Oid t) \<noteq> None"
  proof
    fix t assume "t \<in> set ?sb"
    then have "t_Oid t \<in> set (map t_Oid batch')" using ssb by simp
    then have "t_Oid t \<in> set us" using sub by (metis mset_subset_eqD set_mset_mset)
    with iC show "transferables ?q1 (t_Oid t) \<noteq> None" by simp
  qed
  have x1: "distinct (map t_Oid ?sb)"
    using sub mo assms(2) by (metis distinct_sub_mset)
  have w1: "int (length ?sb) \<le> wait ?q1" using lsb iB e2 by simp
  have b1: "0 \<le> batchSize ?q1" using iS by simp
  from round_closes [OF assms(1) k1 d1 x1 w1 b1]
  obtain "next" e q2 l where
    r: "enqueueAndCollectRetriesFor w ?sb ?q1 = Inr (next, e, q2)"
    and rp: "round_post ?sb ?q1 next q2 l" and qu: "quiet w \<longrightarrow> next = []"
    by (elim exE conjE)
  let ?q3 = "case e of Some x \<Rightarrow> send_error x q2 | None \<Rightarrow> q2"
  let ?R = "requests q @ (if batch' = [] then [] else [ApiObjects ?sb])"
  let ?q0 = "q\<lparr>incoming := rest, requests := ?R, rounds := Suc (rounds q)\<rparr>"
  have sbe: "(?sb = []) = (batch' = [])" using lsb by (metis length_0_conv)
  have it: "iteration w closing batch q = Some (Inr (closing', next, ?q3))"
    using f r iI by (simp add: iteration_def)
  from rp have c2: "closes ?q0 q2 l"
    and ac: "mset (map t_Oid next) + mset (map fst l) = mset (map t_Oid ?sb)"
    and g: "\<forall>t \<in> set next. hasBudget ?q1 (t_Oid t) \<and>
         CountFor (rc ?q1) (t_Oid t) + 1 \<le> CountFor (rc q2) (t_Oid t)"
    unfolding round_post_def by (simp_all add: sbe)
  have c3: "closes ?q0 ?q3 l" using c2 by (rule closes_send_error_opt)
  note fr = closes_frame [OF c3]
  have k3: "keyed ?q3"
  proof -
    have "keyed ?q0" using iK by (simp add: keyed_def)
    with c3 show ?thesis by (rule closes_keyed)
  qed
  have "size (mset (map t_Oid next) + mset (map fst l)) = size (mset (map t_Oid ?sb))"
    using ac by simp
  then have e3: "length next + length l = length batch'" using lsb by simp
  have lb': "int (length batch') \<le> batchSize q" using fl iL by simp
  have nA: "mset (map t_Oid next) + mset (map t_Oid (incoming ?q3)) + mset (map fst (doneLog ?q3)) =
      mset us"
  proof -
    have "mset (map t_Oid next) + mset (map t_Oid rest) + (mset (map fst (doneLog q)) + mset (map fst l)) =
        (mset (map t_Oid next) + mset (map fst l)) + mset (map t_Oid rest) + mset (map fst (doneLog q))"
      by (simp add: union_ac)
    also have "\<dots> = mset (map t_Oid batch') + mset (map t_Oid rest) + mset (map fst (doneLog q))"
      using ac mo by simp
    also have "\<dots> = mset us" using iA e1 by simp
    finally show ?thesis using fr(1) fr(3) by simp
  qed
  have nB: "wait ?q3 = int (length next) + int (length (incoming ?q3))"
    using fr(2) fr(3) iB e2 e3 by simp
  have nC: "\<forall>oid \<in> set us. transferables ?q3 oid \<noteq> None"
    using iC fr(12) by simp
  have nE: "closing' \<longrightarrow> incoming ?q3 = []" using fc fr(3) by simp
  have nI: "incomingClosed ?q3" using iI fr(4) by simp
  have nS: "1 \<le> batchSize ?q3" using iS fr(5) by simp
  have nL: "int (length next) \<le> batchSize ?q3" using e3 lb' fr(5) by simp
  have nR: "\<forall>r \<in> set (requests ?q3). desc r \<and> int (length r) \<le> batchSize ?q3"
  proof -
    have "desc (ApiObjects ?sb)" using srt by (rule desc_sorted_batch)
    moreover have "int (length (ApiObjects ?sb)) \<le> batchSize q"
      using lb' lsb by (simp add: ApiObjects_def)
    ultimately show ?thesis using iR fr(5) fr(9) by auto
  qed
  have nW: "\<forall>c \<in> set (watchers ?q3). sent c = succeeded (doneLog ?q3) \<and> \<not> closed c"
    using iW fr(1) fr(14) by auto
  have inv': "loop_inv us closing' next ?q3"
    unfolding loop_inv_def by (intro conjI nA nB nC k3 nE nI nS nL nR nW)
  have rq: "requests ?q3 = ?R" using fr(9) by simp
  have dec: "\<not> (closing' \<and> next = []) \<longrightarrow> mu closing' next ?q3 < mu closing batch q"
  proof
    assume nf: "\<not> (closing' \<and> next = [])"
    have ne: "batch' \<noteq> []"
    proof
      assume em: "batch' = []"
      with e3 have "next = []" by simp
      moreover have "closing'"
      proof (rule ccontr)
        assume "\<not> closing'"
        with ff em have "IsFull [] (batchSize q)" by simp
        with iS show False by (simp add: IsFull_def)
      qed
      ultimately show False using nf by simp
    qed
    have mx: "MaxRetries (rc ?q3) = MaxRetries (rc q)" using fr(8) by simp
    have cg: "\<And>oid. CountFor (rc q) oid \<le> CountFor (rc ?q3) oid" using fr(13) by simp
    have g3: "\<forall>t \<in> set next. hasBudget q (t_Oid t) \<and>
         CountFor (rc q) (t_Oid t) + 1 \<le> CountFor (rc ?q3) (t_Oid t)"
    proof
      fix t assume t: "t \<in> set next"
      have "rc ?q3 = rc q2" by (cases e) (simp_all add: send_error_def)
      with g t show "hasBudget q (t_Oid t) \<and>
         CountFor (rc q) (t_Oid t) + 1 \<le> CountFor (rc ?q3) (t_Oid t)"
        by (simp add: hasBudget_def)
    qed
    have p1: "pot ?q3 (map t_Oid next) + length next \<le> pot q (map t_Oid next)"
      using mx g3 by (rule pot_retried)
    have p2: "pot q (map t_Oid next) + pot q (map fst l) = pot q (map t_Oid batch')"
    proof -
      have "mset (map t_Oid next @ map fst l) = mset (map t_Oid batch')" using ac mo by simp
      from pot_mset [OF this, of q] show ?thesis by simp
    qed
    have p3: "length l \<le> pot q (map fst l)" using pot_ge_length [of "map fst l" q] by simp
    have p4: "pot ?q3 (map t_Oid rest) \<le> pot q (map t_Oid rest)" using mx cg by (rule pot_mono)
    have p5: "pot q (map t_Oid batch) + pot q (map t_Oid (incoming q)) =
        pot q (map t_Oid batch') + pot q (map t_Oid rest)"
    proof -
      have "mset (map t_Oid batch @ map t_Oid (incoming q)) = mset (map t_Oid batch' @ map t_Oid rest)"
        using e1 by simp
      from pot_mset [OF this, of q] show ?thesis by simp
    qed
    have p6: "(if closing' then 0 else 1) \<le> (if closing then 0 else (1::nat))" using fm by simp
    have p7: "0 < length batch'" using ne by simp
    have m1: "mu closing' next ?q3 =
        pot ?q3 (map t_Oid next) + pot ?q3 (map t_Oid rest) + (if closing' then 0 else 1)"
      unfolding mu_def fr(3) by simp
    have m2: "mu closing batch q =
        pot q (map t_Oid batch) + pot q (map t_Oid (incoming q)) + (if closing then 0 else 1)"
      unfolding mu_def by simp
    show "mu closing' next ?q3 < mu closing batch q"
      using m1 m2 p1 p2 p3 p4 p5 p6 p7 e3 by linarith
  qed
  have lw: "length (watchers ?q3) = length (watchers q)" using fr(14) by simp
  show ?thesis
    using f it inv' fr(3) fr(5) rq qu lw dec by simp
qed

subsection \<open>The loop returns\<close>

lemma loop_returns:
  assumes "well_behaved w" "distinct us"
  shows "loop_inv us closing batch q \<Longrightarrow>
     \<exists>q'. collectLoop w closing batch q = Some (Inr q') \<and> loop_inv us True [] q' \<and>
          batchSize q' = batchSize q \<and> length (watchers q') = length (watchers q)"
proof (induction "mu closing batch q" arbitrary: closing batch q rule: less_induct)
  case less
  from iteration_step [OF assms less.prems]
  obtain closing' batch' rest "next" q1 where
    it: "iteration w closing batch q = Some (Inr (closing', next, q1))"
    and inv: "loop_inv us closing' next q1" and bs: "batchSize q1 = batchSize q"
    and lw: "length (watchers q1) = length (watchers q)"
    and dec: "\<not> (closing' \<and> next = []) \<longrightarrow> mu closing' next q1 < mu closing batch q"
    by (elim exE conjE)
  show ?case
  proof (cases "closing' \<and> next = []")
    case True
    then have "collectLoop w closing batch q = Some (Inr q1)"
      using it by (subst collectLoop.simps) simp
    with True inv bs lw show ?thesis by simp
  next
    case False
    with dec have "mu closing' next q1 < mu closing batch q" by simp
    from less.hyps [OF this inv]
    obtain q' where r: "collectLoop w closing' next q1 = Some (Inr q')" "loop_inv us True [] q'"
      "batchSize q' = batchSize q1" "length (watchers q') = length (watchers q1)"
      by (elim exE conjE)
    have "collectLoop w closing batch q = collectLoop w closing' next q1"
      using it False by (subst collectLoop.simps) auto
    with r bs lw show ?thesis by simp
  qed
qed

lemma ceil_div_small:
  assumes "1 \<le> b" "n \<le> b"
  shows "(n + b - 1) div b = (if n = 0 then 0 else (1::nat))"
proof (cases "n = 0")
  case True
  with assms show ?thesis by simp
next
  case False
  then have e: "(n + b - 1) = (n - 1) + b" using assms by simp
  have l: "n - 1 < b" using assms False by simp
  have "(n + b - 1) div b = ((n - 1) + b) div b" using e by simp
  also have "\<dots> = (n - 1) div b + 1"
  proof -
    have "b \<noteq> 0" using assms(1) by simp
    then show ?thesis by (rule div_add_self2)
  qed
  also have "\<dots> = 1" using l by simp
  finally show ?thesis using False by simp
qed

lemma ceil_div_step:
  assumes "1 \<le> (b::nat)"
  shows "(b + r + b - 1) div b = (r + b - 1) div b + 1"
proof -
  have e: "b + r + b - 1 = (r + b - 1) + b" using assms by simp
  have "b \<noteq> 0" using assms by simp
  then have "((r + b - 1) + b) div b = (r + b - 1) div b + 1" by (rule div_add_self2)
  with e show ?thesis by simp
qed

lemma quiet_loop_requests:
  assumes "well_behaved w" "quiet w" "distinct us"
  shows "loop_inv us False [] q \<Longrightarrow>
     \<exists>q'. collectLoop w False [] q = Some (Inr q') \<and>
       length (requests q') = length (requests q) +
         (length (incoming q) + nat (batchSize q) - 1) div nat (batchSize q)"
proof (induction "length (incoming q)" arbitrary: q rule: less_induct)
  case less
  from less.prems have iS: "1 \<le> batchSize q" unfolding loop_inv_def by simp
  from iteration_step [OF assms(1,3) less.prems]
  obtain closing' batch' rest "next" q1 where
    f: "fill True (batchSize q) False [] (incoming q) = Some (closing', batch', rest)"
    and it: "iteration w False [] q = Some (Inr (closing', next, q1))"
    and inv: "loop_inv us closing' next q1" and ir: "incoming q1 = rest"
    and bs: "batchSize q1 = batchSize q"
    and rq: "requests q1 = requests q @
        (if batch' = [] then [] else [ApiObjects (goSort w (Reverse Less) batch')])"
    and qu: "quiet w \<longrightarrow> next = []"
    by (elim exE conjE)
  from fill_result [OF iS, of False "incoming q" "[]"] f
  have fa: "incoming q = batch' @ rest" and fc: "closing' \<longrightarrow> rest = []"
    and ff: "\<not> closing' \<longrightarrow> IsFull batch' (batchSize q)"
    and fl: "int (length batch') \<le> batchSize q"
    using iS by auto
  have nx: "next = []" using qu assms(2) by simp
  have nb: "1 \<le> nat (batchSize q)" using iS by simp
  show ?case
  proof (cases closing')
    case True
    then have c: "collectLoop w False [] q = Some (Inr q1)"
      using it nx by (subst collectLoop.simps) simp
    have "rest = []" using fc True by simp
    then have i: "incoming q = batch'" using fa by simp
    have "length batch' \<le> nat (batchSize q)" using fl by simp
    from ceil_div_small [OF nb this]
    have "(length (incoming q) + nat (batchSize q) - 1) div nat (batchSize q) =
        (if batch' = [] then 0 else 1)"
      using i by simp
    with c rq show ?thesis by simp
  next
    case False
    with ff have "batchSize q \<le> int (length batch')" by (simp add: IsFull_def)
    with fl have lb: "length batch' = nat (batchSize q)" by simp
    with nb have ne: "batch' \<noteq> []" by auto
    have lt: "length (incoming q1) < length (incoming q)" using ir fa ne by simp
    have inv1: "loop_inv us False [] q1" using inv False nx by simp
    from less.hyps [OF lt inv1]
    obtain q' where r: "collectLoop w False [] q1 = Some (Inr q')"
      "length (requests q') = length (requests q1) +
         (length (incoming q1) + nat (batchSize q1) - 1) div nat (batchSize q1)"
      by (elim exE conjE)
    have c: "collectLoop w False [] q = collectLoop w False [] q1"
      using it False nx by (subst collectLoop.simps) simp
    have "length (incoming q) = nat (batchSize q) + length rest" using fa lb by simp
    then have "(length (incoming q) + nat (batchSize q) - 1) div nat (batchSize q) =
        (length rest + nat (batchSize q) - 1) div nat (batchSize q) + 1"
      using ceil_div_step [OF nb, of "length rest"] by simp
    with c r rq ne ir bs show ?thesis by simp
  qed
qed

subsection \<open>Adding objects\<close>

definition fresh :: "TransferQueue \<Rightarrow> bool" where
  "fresh q =
     (transferables q = Map.empty \<and> incoming q = [] \<and> \<not> incomingClosed q \<and> wait q = 0 \<and>
      doneLog q = [] \<and> requests q = [] \<and> 1 \<le> batchSize q \<and>
      (\<forall>c \<in> set (watchers q). sent c = [] \<and> \<not> closed c))"

definition queued_inv :: "TransferQueue \<Rightarrow> bool" where
  "queued_inv q =
     (keyed q \<and> distinct (map t_Oid (incoming q)) \<and>
      set (map t_Oid (incoming q)) = dom (transferables q) \<and>
      wait q = int (length (incoming q)) \<and> \<not> incomingClosed q)"

definition added :: "TransferQueue \<Rightarrow> TransferQueue \<Rightarrow> bool" where
  "added q q' =
     (doneLog q' = doneLog q \<and> requests q' = requests q \<and> watchers q' = watchers q \<and>
      batchSize q' = batchSize q)"

lemma Add_inv:
  assumes "queued_inv q"
  shows "\<exists>q'. Add t q = Inr q' \<and> queued_inv q' \<and>
     dom (transferables q') = insert (t_Oid t) (dom (transferables q)) \<and> added q q'"
proof (cases "transferables q (t_Oid t)")
  case None
  then have "t_Oid t \<notin> dom (transferables q)" by (simp add: domIff)
  with assms None show ?thesis
    by (simp add: Add_def Let_def queued_inv_def keyed_def added_def)
next
  case (Some u)
  then have "t_Oid t \<in> dom (transferables q)" by (simp add: domIff)
  then have "insert (t_Oid t) (dom (transferables q)) = dom (transferables q)" by auto
  with assms Some show ?thesis by (simp add: Add_def added_def)
qed

lemma AddAll_inv:
  assumes "queued_inv q"
  shows "\<exists>q'. AddAll ts q = Inr q' \<and> queued_inv q' \<and>
     dom (transferables q') = dom (transferables q) \<union> t_Oid ` set ts \<and> added q q'"
  using assms
proof (induction ts arbitrary: q)
  case Nil
  then show ?case by (simp add: added_def)
next
  case (Cons t ts)
  from Add_inv [OF Cons.prems, of t]
  obtain q1 where a: "Add t q = Inr q1" "queued_inv q1"
    "dom (transferables q1) = insert (t_Oid t) (dom (transferables q))" "added q q1"
    by (elim exE conjE)
  from Cons.IH [OF a(2)]
  obtain q2 where b: "AddAll ts q1 = Inr q2" "queued_inv q2"
    "dom (transferables q2) = dom (transferables q1) \<union> t_Oid ` set ts" "added q1 q2"
    by (elim exE conjE)
  have "added q q2" using a(4) b(4) by (simp add: added_def)
  moreover have "dom (transferables q2) = dom (transferables q) \<union> t_Oid ` set (t # ts)"
    using a(3) b(3) by auto
  ultimately show ?case using a(1) b(1,2) by simp
qed

lemma loop_inv_done:
  assumes "loop_inv us True [] q"
  shows "mset (map fst (doneLog q)) = mset us \<and> wait q = 0 \<and>
     (\<forall>r \<in> set (requests q). desc r \<and> int (length r) \<le> batchSize q) \<and>
     (\<forall>c \<in> set (watchers q). sent c = succeeded (doneLog q) \<and> \<not> closed c)"
proof -
  note u = assms [unfolded loop_inv_def]
  from u have i: "incoming q = []" by simp
  from u [THEN conjunct1] i have a: "mset (map fst (doneLog q)) = mset us" by simp
  from u [THEN conjunct2, THEN conjunct1] i have b: "wait q = 0" by simp
  from u have c: "\<forall>r \<in> set (requests q). desc r \<and> int (length r) \<le> batchSize q"
    by blast
  from u have d: "\<forall>c \<in> set (watchers q). sent c = succeeded (doneLog q) \<and> \<not> closed c"
    by blast
  from a b c d show ?thesis by blast
qed

subsection \<open>A whole run\<close>


lemma run_loop:
  assumes "well_behaved w" "fresh q0"
  shows "\<exists>q1 q2. AddAll ts q0 = Inr q1 \<and> added q0 q1 \<and>
     distinct (map t_Oid (incoming q1)) \<and> set (map t_Oid (incoming q1)) = t_Oid ` set ts \<and>
     wait q1 = int (length (incoming q1)) \<and>
     loop_inv (map t_Oid (incoming q1)) False [] (q1\<lparr>incomingClosed := True\<rparr>) \<and>
     collectLoop w False [] (q1\<lparr>incomingClosed := True\<rparr>) = Some (Inr q2) \<and>
     loop_inv (map t_Oid (incoming q1)) True [] q2 \<and>
     batchSize q2 = batchSize q0 \<and> length (watchers q2) = length (watchers q0) \<and>
     Wait w q1 = Some (Inr ((finishAdapter q2)
        \<lparr>watchers := map (\<lambda>c. c\<lparr>closed := True\<rparr>) (watchers (finishAdapter q2)),
         meter := meter (finishAdapter q2) @ [MeterFinish]\<rparr>))"
proof -
  from assms(2) have fr: "transferables q0 = Map.empty" "incoming q0 = []" "\<not> incomingClosed q0"
    "wait q0 = 0" "doneLog q0 = []" "requests q0 = []" "1 \<le> batchSize q0"
    "\<forall>c \<in> set (watchers q0). sent c = [] \<and> \<not> closed c"
    unfolding fresh_def by simp_all
  have "queued_inv q0" using fr by (simp add: queued_inv_def keyed_def)
  from AddAll_inv [OF this, of ts]
  obtain q1 where a: "AddAll ts q0 = Inr q1" "queued_inv q1"
    "dom (transferables q1) = dom (transferables q0) \<union> t_Oid ` set ts" "added q0 q1"
    by (elim exE conjE)
  let ?us = "map t_Oid (incoming q1)"
  let ?q = "q1\<lparr>incomingClosed := True\<rparr>"
  from a(2) have q1: "keyed q1" "distinct ?us" "set ?us = dom (transferables q1)"
    "wait q1 = int (length (incoming q1))"
    unfolding queued_inv_def by simp_all
  from a(4) have ad: "doneLog q1 = doneLog q0" "requests q1 = requests q0"
    "watchers q1 = watchers q0" "batchSize q1 = batchSize q0"
    unfolding added_def by simp_all
  have su: "set ?us = t_Oid ` set ts" using q1(3) a(3) fr(1) by simp
  have inv: "loop_inv ?us False [] ?q"
    unfolding loop_inv_def using q1 ad fr by (auto simp: keyed_def domIff)
  from loop_returns [OF assms(1) q1(2) inv]
  obtain q2 where l: "collectLoop w False [] ?q = Some (Inr q2)" "loop_inv ?us True [] q2"
    "batchSize q2 = batchSize ?q" "length (watchers q2) = length (watchers ?q)"
    by (elim exE conjE)
  from loop_inv_done [OF l(2)] have w2: "wait q2 = 0" by blast
  have mb: "makeBatch ?q = Inr []" using fr(7) ad(4) by (simp add: makeBatch_def)
  have wt: "Wait w q1 = Some (Inr ((finishAdapter q2)
        \<lparr>watchers := map (\<lambda>c. c\<lparr>closed := True\<rparr>) (watchers (finishAdapter q2)),
         meter := meter (finishAdapter q2) @ [MeterFinish]\<rparr>))"
    using l(1) mb w2 by (simp add: Wait_def collectBatches_def Let_def)
  have b2: "batchSize q2 = batchSize q0" using l(3) ad(4) by simp
  have l2: "length (watchers q2) = length (watchers q0)" using l(4) ad(3) by simp
  show ?thesis
    apply (rule exI [of _ q1], rule exI [of _ q2])
    apply (intro conjI)
    apply (rule a(1)) apply (rule a(4)) apply (rule q1(2)) apply (rule su) apply (rule q1(4))
    apply (rule inv) apply (rule l(1)) apply (rule l(2)) apply (rule b2) apply (rule l2)
    apply (rule wt)
    done
qed

lemma run_accounting:
  assumes "well_behaved w" "fresh q0"
  shows "\<exists>q1 q'. AddAll ts q0 = Inr q1 \<and> wait q1 = int (card (t_Oid ` set ts)) \<and>
     Wait w q1 = Some (Inr q') \<and> wait q' = 0 \<and>
     distinct (map fst (doneLog q')) \<and> set (map fst (doneLog q')) = t_Oid ` set ts \<and>
     (\<forall>r \<in> set (requests q'). desc r \<and> int (length r) \<le> batchSize q0) \<and>
     length (watchers q') = length (watchers q0) \<and>
     (\<forall>c \<in> set (watchers q'). closed c \<and> sent c = succeeded (doneLog q')) \<and>
     (quiet w \<longrightarrow> length (requests q') =
        (card (t_Oid ` set ts) + nat (batchSize q0) - 1) div nat (batchSize q0))"
proof -
  from assms(2) have fr: "requests q0 = []" unfolding fresh_def by simp
  from run_loop [OF assms, of ts]
  obtain q1 q2 where a: "AddAll ts q0 = Inr q1" and a4: "added q0 q1"
    and q1: "distinct (map t_Oid (incoming q1))" "wait q1 = int (length (incoming q1))"
    and su: "set (map t_Oid (incoming q1)) = t_Oid ` set ts"
    and inv: "loop_inv (map t_Oid (incoming q1)) False [] (q1\<lparr>incomingClosed := True\<rparr>)"
    and l: "collectLoop w False [] (q1\<lparr>incomingClosed := True\<rparr>) = Some (Inr q2)"
      "loop_inv (map t_Oid (incoming q1)) True [] q2"
      "batchSize q2 = batchSize q0" "length (watchers q2) = length (watchers q0)"
    and wt0: "Wait w q1 = Some (Inr ((finishAdapter q2)
        \<lparr>watchers := map (\<lambda>c. c\<lparr>closed := True\<rparr>) (watchers (finishAdapter q2)),
         meter := meter (finishAdapter q2) @ [MeterFinish]\<rparr>))"
    by (elim exE conjE)
  let ?us = "map t_Oid (incoming q1)"
  let ?q = "q1\<lparr>incomingClosed := True\<rparr>"
  from a4 have ad: "doneLog q1 = doneLog q0" "requests q1 = requests q0"
    "watchers q1 = watchers q0" "batchSize q1 = batchSize q0"
    unfolding added_def by simp_all
  have cu: "card (t_Oid ` set ts) = length (incoming q1)"
    using su q1(1) by (metis distinct_card length_map)
  from loop_inv_done [OF l(2)]
  have f2: "mset (map fst (doneLog q2)) = mset ?us" "wait q2 = 0"
    "\<forall>r \<in> set (requests q2). desc r \<and> int (length r) \<le> batchSize q2"
    "\<forall>c \<in> set (watchers q2). sent c = succeeded (doneLog q2) \<and> \<not> closed c"
    by blast+
  let ?q3 = "finishAdapter q2"
  let ?q' = "?q3\<lparr>watchers := map (\<lambda>c. c\<lparr>closed := True\<rparr>) (watchers ?q3),
      meter := meter ?q3 @ [MeterFinish]\<rparr>"
  have wt: "Wait w q1 = Some (Inr ?q')" using wt0 .
  have fa: "doneLog ?q3 = doneLog q2" "watchers ?q3 = watchers q2" "requests ?q3 = requests q2"
    "wait ?q3 = wait q2"
    by (simp_all add: finishAdapter_def)
  have dl: "doneLog ?q' = doneLog q2" using fa(1) by simp
  have rq: "requests ?q' = requests q2" using fa(3) by simp
  have ws: "watchers ?q' = map (\<lambda>c. c\<lparr>closed := True\<rparr>) (watchers q2)" using fa(2) by simp
  have wq: "wait ?q' = 0" using fa(4) f2(2) by simp
  have "distinct (map fst (doneLog q2))"
    using mset_eq_imp_distinct_iff [OF f2(1)] q1(1) by simp
  then have c5: "distinct (map fst (doneLog ?q'))" using dl by simp
  have "set (map fst (doneLog q2)) = set ?us" using f2(1) by (rule mset_eq_setD)
  then have c6: "set (map fst (doneLog ?q')) = t_Oid ` set ts" using dl su by simp
  have c7: "\<forall>r \<in> set (requests ?q'). desc r \<and> int (length r) \<le> batchSize q0"
    using f2(3) l(3) rq by simp
  have c8: "length (watchers ?q') = length (watchers q0)" using ws l(4) by simp
  have c9: "\<forall>c \<in> set (watchers ?q'). closed c \<and> sent c = succeeded (doneLog ?q')"
  proof
    fix c assume "c \<in> set (watchers ?q')"
    then obtain c0 where c0: "c0 \<in> set (watchers q2)" "c = c0\<lparr>closed := True\<rparr>"
      using ws by auto
    from f2(4) c0(1) have "sent c0 = succeeded (doneLog q2)" by simp
    with c0(2) dl show "closed c \<and> sent c = succeeded (doneLog ?q')" by simp
  qed
  have c10: "quiet w \<longrightarrow> length (requests ?q') =
        (card (t_Oid ` set ts) + nat (batchSize q0) - 1) div nat (batchSize q0)"
  proof
    assume qu: "quiet w"
    from quiet_loop_requests [OF assms(1) qu q1(1) inv]
    obtain q2' where x: "collectLoop w False [] ?q = Some (Inr q2')"
      "length (requests q2') = length (requests ?q) +
         (length (incoming ?q) + nat (batchSize ?q) - 1) div nat (batchSize ?q)"
      by (elim exE conjE)
    from x(1) l(1) have "q2' = q2" by simp
    with x(2) have "length (requests q2) =
        (length (incoming q1) + nat (batchSize q0) - 1) div nat (batchSize q0)"
      using ad(2,4) fr by simp
    with rq cu show "length (requests ?q') =
        (card (t_Oid ` set ts) + nat (batchSize q0) - 1) div nat (batchSize q0)"
      by simp
  qed
  have c2: "wait q1 = int (card (t_Oid ` set ts))" using q1(2) cu by simp
  show ?thesis
    apply (rule exI [of _ q1], rule exI [of _ ?q'])
    apply (intro conjI)
    apply (rule a) apply (rule c2) apply (rule wt) apply (rule wq) apply (rule c5)
    apply (rule c6) apply (rule c7) apply (rule c8) apply (rule c9) apply (rule c10)
    done
qed

subsection \<open>Worlds and queues that meet the hypotheses\<close>

definition demo_u :: Transferable where
  "demo_u = \<lparr>t_Oid = ''bbbb'', t_Size = 4096, t_Name = ''b.bin'',
     t_Path = ''/lfs/objects/bbbb'', t_Object = None\<rparr>"

definition demo_v :: Transferable where
  "demo_v = \<lparr>t_Oid = ''cccc'', t_Size = 16, t_Name = ''c.bin'',
     t_Path = ''/lfs/objects/cccc'', t_Object = None\<rparr>"

lemma image_mset_granted: "image_mset o_Oid (image_mset granted M) = image_mset fst M"
  by (simp add: multiset.map_comp o_def granted_def)

lemma image_mset_fst_pair: "image_mset (fst \<circ> (\<lambda>t. (t, x))) M = M"
  by (simp add: o_def)

lemma demo_world_well_behaved: "well_behaved demo_world"
  by (simp add: well_behaved_def api_contract_def adapter_contract_def insertionSort_contract
      demo_world_def image_mset_granted image_mset_fst_pair)

lemma demo_world_quiet: "quiet demo_world"
  by (simp add: quiet_def demo_world_def)

lemma failing_world_well_behaved: "well_behaved failing_world"
  by (simp add: well_behaved_def api_contract_def adapter_contract_def insertionSort_contract
      failing_world_def demo_world_def image_mset_granted image_mset_fst_pair)

lemma fresh_new: "1 \<le> B \<Longrightarrow> fresh (NewTransferQueue dir cfg [WithBatchSize B])"
  by (simp add: fresh_def NewTransferQueue_simps)


lemma demo_oids:
  "t_Oid ` set [demo_t, demo_u, demo_t] = {''aaaa'', ''bbbb''}"
  "t_Oid ` set [demo_v, demo_u, demo_t] = {''cccc'', ''bbbb'', ''aaaa''}"
  "card {''aaaa'', ''bbbb''} = 2" "card {''cccc'', ''bbbb'', ''aaaa''} = 3"
  by (auto simp: demo_t_def demo_u_def demo_v_def)

lemma run_Inr: "AddAll ts q0 = Inr q1 \<Longrightarrow> run w q0 ts = Wait w q1"
  by (simp add: run_def)


section \<open>The claims about a whole run\<close>

text \<open>
  Claim C1. Let the negotiation endpoint, the adapter and \<^verbatim>\<open>sort.Sort\<close> keep their
  contracts, and let the queue be new, with a batch size of at least one. Adding the
  objects \<open>ts\<close> raises the wait group once for each unique oid. \<^verbatim>\<open>Wait\<close> then returns, with
  the wait group at zero, and the log of \<^verbatim>\<open>q.wait.Done()\<close> calls holds each unique oid
  exactly once, with its one terminal outcome: however many retries a failing adapter
  or endpoint has caused, every added oid is closed out once and none twice.
\<close>

theorem each_oid_closed_once:
  assumes "well_behaved w" and "fresh q0"
  shows "\<exists>q1 q'. AddAll ts q0 = Inr q1 \<and> wait q1 = int (card (t_Oid ` set ts)) \<and>
     Wait w q1 = Some (Inr q') \<and> wait q' = 0 \<and>
     distinct (map fst (doneLog q')) \<and> set (map fst (doneLog q')) = t_Oid ` set ts"
  using run_accounting [OF assms, of ts] by blast

theorem each_oid_closed_once_witness:
  "\<exists>q1 q'. AddAll [demo_t, demo_u, demo_t] (NewTransferQueue Download NotSet [WithBatchSize 2]) = Inr q1 \<and>
     wait q1 = 2 \<and> Wait failing_world q1 = Some (Inr q') \<and> wait q' = 0 \<and>
     distinct (map fst (doneLog q')) \<and> set (map fst (doneLog q')) = {''aaaa'', ''bbbb''}"
proof -
  have f: "fresh (NewTransferQueue Download NotSet [WithBatchSize 2])" by (simp add: fresh_new)
  from each_oid_closed_once [OF failing_world_well_behaved f, of "[demo_t, demo_u, demo_t]"]
  show ?thesis unfolding demo_oids by simp
qed

text \<open>
  Claim C7. Under the same hypotheses, every request that reaches the negotiation
  endpoint during the run, for a first batch or for a batch of retries, lists its objects
  by descending declared size.
\<close>

theorem batches_sorted_descending:
  assumes "well_behaved w" and "fresh q0"
  shows "\<exists>q'. run w q0 ts = Some (Inr q') \<and>
     (\<forall>r \<in> set (requests q'). sorted_wrt (\<lambda>a b. snd b \<le> snd a) r)"
proof -
  from run_accounting [OF assms, of ts]
  obtain q1 q' where r: "AddAll ts q0 = Inr q1" "Wait w q1 = Some (Inr q')"
    "\<forall>r \<in> set (requests q'). desc r \<and> int (length r) \<le> batchSize q0"
    by (elim exE conjE)
  from r(3) have "\<forall>r \<in> set (requests q'). sorted_wrt (\<lambda>a b. snd b \<le> snd a) r"
    by (simp add: desc_def)
  with r(1,2) run_Inr [OF r(1), of w] show ?thesis by simp
qed

theorem batches_sorted_descending_witness:
  "\<exists>q'. run failing_world (NewTransferQueue Download NotSet [WithBatchSize 2])
            [demo_v, demo_u, demo_t] = Some (Inr q') \<and>
     list_all (sorted_wrt (\<lambda>a b. snd b \<le> snd a)) (requests q')"
proof -
  have f: "fresh (NewTransferQueue Download NotSet [WithBatchSize 2])" by (simp add: fresh_new)
  from batches_sorted_descending [OF failing_world_well_behaved f, of "[demo_v, demo_u, demo_t]"]
  show ?thesis by (simp add: list_all_iff)
qed

text \<open>
  Claim C8. When, in addition, no negotiation call and no transfer fails, a queue with
  batch size \<open>B\<close> that is given \<open>M\<close> unique oids sends exactly \<open>\<lceil>M / B\<rceil>\<close> requests to the
  negotiation endpoint, each for at most \<open>B\<close> objects. The batch that is empty when the
  channel closes is passed to the batch call, which returns at once for an empty list
  and sends nothing.
\<close>

theorem batch_count:
  assumes "well_behaved w" and "quiet w" and "fresh q0"
  shows "\<exists>q'. run w q0 ts = Some (Inr q') \<and>
     length (requests q') =
       (card (t_Oid ` set ts) + nat (batchSize q0) - 1) div nat (batchSize q0) \<and>
     (\<forall>r \<in> set (requests q'). int (length r) \<le> batchSize q0)"
proof -
  from run_accounting [OF assms(1,3), of ts]
  obtain q1 q' where r: "AddAll ts q0 = Inr q1" "Wait w q1 = Some (Inr q')"
    "\<forall>r \<in> set (requests q'). desc r \<and> int (length r) \<le> batchSize q0"
    "quiet w \<longrightarrow> length (requests q') =
        (card (t_Oid ` set ts) + nat (batchSize q0) - 1) div nat (batchSize q0)"
    by (elim exE conjE)
  from r(3) have "\<forall>r \<in> set (requests q'). int (length r) \<le> batchSize q0" by simp
  with r(2,4) assms(2) run_Inr [OF r(1), of w] show ?thesis by simp
qed

theorem batch_count_witness:
  "\<exists>q'. run demo_world (NewTransferQueue Download NotSet [WithBatchSize 2])
            [demo_v, demo_u, demo_t] = Some (Inr q') \<and>
     length (requests q') = 2 \<and> list_all (\<lambda>r. length r \<le> 2) (requests q')"
proof -
  have f: "fresh (NewTransferQueue Download NotSet [WithBatchSize 2])" by (simp add: fresh_new)
  have b: "batchSize (NewTransferQueue Download NotSet [WithBatchSize 2]) = 2"
    by (simp add: NewTransferQueue_simps)
  from batch_count [OF demo_world_well_behaved demo_world_quiet f, of "[demo_v, demo_u, demo_t]"]
  show ?thesis unfolding demo_oids b by (simp add: list_all_iff)
qed



section \<open>Attempts and recorded errors\<close>

subsection \<open>The steps of one round, read off their results\<close>



















subsection \<open>One round\<close>





subsection \<open>The bound on the attempts\<close>










subsection \<open>The loop\<close>




subsection \<open>A whole run\<close>








end
